theory Spec2Isabelle
  imports Complex_Main "HOL-Library.AList" "HOL-Library.Sublist"
begin

section \<open>Python values used by the pipeline\<close>

text \<open>
  Exceptions are values. The four classes of the driver's \<^verbatim>\<open>except\<close> clause are
  the transient ones; the others are what the modelled statements can raise.
  \<open>OtherError\<close> stands for any further exception the service may raise.
  \<open>Unmodelled\<close> marks an input on which the model of a library function makes no
  statement (see \<open>json_loads\<close> below): it is not an exception of the program, and
  where it ends a modelled run the model says nothing about what the program does next.
\<close>

datatype exn =
    RateLimitError | ServiceUnavailableError | APIError | OSError
  | ValueError | KeyError | IndexError | JSONDecodeError | UnboundLocalError
  | ZeroDivisionError
  | OtherError | Unmodelled

subsection \<open>Strings\<close>

text \<open>
  Python strings are modelled as \<^typ>\<open>string\<close>, characters restricted to code points
  below 256. \<open>str_split sep s\<close> is \<^verbatim>\<open>s.split(sep)\<close>: the leftmost non-overlapping
  occurrences of \<open>sep\<close> cut the string; the result is never empty. The source only
  passes non-empty literal separators (Python raises ValueError on an empty one).
\<close>

fun str_split :: "string \<Rightarrow> string \<Rightarrow> string list" where
  "str_split sep [] = [[]]"
| "str_split sep (c # cs) =
     (if sep \<noteq> [] \<and> prefix sep (c # cs)
      then [] # str_split sep (drop (length sep - 1) cs)
      else (case str_split sep cs of
              [] \<Rightarrow> [[c]]
            | p # ps \<Rightarrow> (c # p) # ps))"

text \<open>\<^verbatim>\<open>u in x\<close> on strings: \<open>u\<close> occurs in \<open>x\<close> as a contiguous substring.\<close>

fun str_contains :: "string \<Rightarrow> string \<Rightarrow> bool" where
  "str_contains u [] = (u = [])"
| "str_contains u (c # cs) = (prefix u (c # cs) \<or> str_contains u cs)"

definition endswith :: "string \<Rightarrow> string \<Rightarrow> bool" where
  "endswith s ext = (length ext \<le> length s \<and> drop (length s - length ext) s = ext)"

text \<open>\<^verbatim>\<open>os.path.join(a, b)\<close> (POSIX) for two components.\<close>

definition os_path_join :: "string \<Rightarrow> string \<Rightarrow> string" where
  "os_path_join a b =
     (if take 1 b = ''/'' then b
      else if a = [] \<or> last a = CHR ''/'' then a @ b
      else a @ ''/'' @ b)"

subsection \<open>Integers and their decimal text\<close>

text \<open>
  Python integers are unbounded: \<^typ>\<open>int\<close>. \<^verbatim>\<open>a // b\<close> and \<^verbatim>\<open>a % b\<close> are floor division
  and its remainder, as \<open>div\<close> and \<open>mod\<close> on \<^typ>\<open>int\<close> are, and raise
  ZeroDivisionError when \<open>b\<close> is zero.
\<close>

definition py_floordiv :: "int \<Rightarrow> int \<Rightarrow> exn + int" where
  "py_floordiv a b = (if b = 0 then Inl ZeroDivisionError else Inr (a div b))"

definition py_mod :: "int \<Rightarrow> int \<Rightarrow> exn + int" where
  "py_mod a b = (if b = 0 then Inl ZeroDivisionError else Inr (a mod b))"

definition is_digit :: "char \<Rightarrow> bool" where
  "is_digit c = (c \<in> set ''0123456789'')"

definition digit_val :: "char \<Rightarrow> nat" where
  "digit_val c = of_char c - 48"

definition digits_val :: "string \<Rightarrow> nat" where
  "digits_val ds = fold (\<lambda>c acc. acc * 10 + digit_val c) (filter is_digit ds) 0"

text \<open>The characters \<^verbatim>\<open>int()\<close> strips: Python's whitespace below code point 256.\<close>

definition py_isspace :: "char \<Rightarrow> bool" where
  "py_isspace c = (of_char c \<in> {9, 10, 11, 12, 13, 28, 29, 30, 31, 32, 133, 160 :: nat})"

definition strip :: "string \<Rightarrow> string" where
  "strip s = rev (dropWhile py_isspace (rev (dropWhile py_isspace s)))"

text \<open>
  Digits with single underscores between them, as \<^verbatim>\<open>int()\<close> accepts; the flag says
  whether the previous character was a digit.
\<close>

fun digits_ok :: "bool \<Rightarrow> string \<Rightarrow> bool" where
  "digits_ok prev [] = prev"
| "digits_ok prev (c # cs) =
     (if is_digit c then digits_ok True cs
      else c = CHR ''_'' \<and> prev \<and> digits_ok False cs)"

text \<open>\<^verbatim>\<open>int(s)\<close> for a string: ValueError unless an optionally signed decimal literal.\<close>

definition py_int :: "string \<Rightarrow> exn + int" where
  "py_int s =
     (let t = strip s;
          neg = (take 1 t = ''-'');
          ds = (if take 1 t = ''-'' \<or> take 1 t = ''+'' then drop 1 t else t)
      in if digits_ok False ds
         then Inr ((if neg then - 1 else 1) * int (digits_val ds))
         else Inl ValueError)"

definition digit_chr :: "nat \<Rightarrow> char" where
  "digit_chr d = ''0123456789'' ! d"

fun nat_digits :: "nat \<Rightarrow> string" where
  "nat_digits n =
     (if n < 10 then [digit_chr n] else nat_digits (n div 10) @ [digit_chr (n mod 10)])"

declare nat_digits.simps [simp del]

text \<open>\<^verbatim>\<open>str(i)\<close>, also what an f-string and \<^verbatim>\<open>json.dump\<close> write for an integer.\<close>

definition py_str :: "int \<Rightarrow> string" where
  "py_str i = (if i < 0 then ''-'' @ nat_digits (nat (- i)) else nat_digits (nat i))"

subsection \<open>Lists\<close>

text \<open>\<^verbatim>\<open>xs[i:j]\<close> (and pandas' \<^verbatim>\<open>iloc[i:j]\<close>): negative bounds count from the end.\<close>

definition py_slice :: "'a list \<Rightarrow> int \<Rightarrow> int \<Rightarrow> 'a list" where
  "py_slice xs i j =
     (let n = int (length xs);
          lo = (if i < 0 then max (i + n) 0 else min i n);
          hi = (if j < 0 then max (j + n) 0 else min j n)
      in take (nat (hi - lo)) (drop (nat lo) xs))"

section \<open>The score function (impacts\_common.ffsi\_score)\<close>

text \<open>
  Python numbers are modelled as exact rationals: \<^verbatim>\<open>/\<close> is exact division, the
  rounding of binary floating point is not modelled. The argument of
  \<^verbatim>\<open>ffsi_score\<close> is a dictionary, a list, or anything else; values that are not
  numbers are excluded by the type.
\<close>

datatype probs_arg = PDict "(string \<times> rat) list" | PList "rat list" | POther

definition ffsi_score :: "probs_arg \<Rightarrow> bool \<Rightarrow> exn + rat" where
  "ffsi_score probs do_normalize =
     (case
        (case probs of
           PDict d \<Rightarrow>
             (case (map_of d ''MINOR'', map_of d ''MODERATE'', map_of d ''SERIOUS'',
                    map_of d ''SEVERE'', map_of d ''CATASTROPHIC'') of
                (Some p1, Some p2, Some p3, Some p4, Some p5) \<Rightarrow>
                  Inr (p1 / 100 * 1 + p2 / 100 * 2 + p3 / 100 * 3 + p4 / 100 * 4
                       + p5 / 100 * 5)
              | _ \<Rightarrow> Inl KeyError)
         | PList l \<Rightarrow>
             (if 5 \<le> length l then
                Inr (l ! 0 / 100 * 1 + l ! 1 / 100 * 2 + l ! 2 / 100 * 3 + l ! 3 / 100 * 4
                     + l ! 4 / 100 * 5)
              else Inl IndexError)
         | POther \<Rightarrow> Inl UnboundLocalError)
      of
        Inl e \<Rightarrow> Inl e
      | Inr score \<Rightarrow> Inr (if do_normalize then score / 5 else score))"

section \<open>Batch plans (impacts\_common.define\_batches)\<close>

text \<open>
  A batch is the dictionary \<^verbatim>\<open>{"indices": (start, end), "processed": flag}\<close>.
  The plan is a Python \<^verbatim>\<open>dict\<close> from batch id to batch; it is modelled as an
  association list in insertion order, with \<^const>\<open>AList.update\<close> for
  \<^verbatim>\<open>batches[k] = v\<close> (replace in place when the key exists, append otherwise).
  \<^verbatim>\<open>range(n)\<close> is \<open>[0..n - 1]\<close>, empty when \<open>n \<le> 0\<close>.
\<close>

record batch =
  indices :: "int \<times> int"
  processed :: bool

type_synonym plan = "(int \<times> batch) list"

definition full_batch :: "int \<Rightarrow> int \<Rightarrow> batch" where
  "full_batch batch_size b =
     \<lparr>indices = (batch_size * b, batch_size * (b + 1) - 1), processed = False\<rparr>"

definition define_batches :: "int \<Rightarrow> int \<Rightarrow> exn + plan" where
  "define_batches num_reports batch_size =
     (if batch_size = 0 then
        Inr (AList.update batch_size
               \<lparr>indices = (0, num_reports - 1), processed = False\<rparr> [])
      else
        case py_floordiv num_reports batch_size of
          Inl e \<Rightarrow> Inl e
        | Inr full_batches \<Rightarrow>
            (case py_mod num_reports batch_size of
               Inl e \<Rightarrow> Inl e
             | Inr partial_batch \<Rightarrow>
                 let batches = fold (\<lambda>b. AList.update b (full_batch batch_size b))
                                 [0..full_batches - 1] []
                 in if partial_batch > 0 then
                      Inr (AList.update full_batches
                             \<lparr>indices = (batch_size * full_batches,
                                         batch_size * full_batches + partial_batch - 1),
                              processed = False\<rparr> batches)
                    else Inr batches))"

text \<open>Number of items of a batch (its index range is inclusive) and the indices it covers.\<close>

definition batch_length :: "batch \<Rightarrow> int" where
  "batch_length b = snd (indices b) - fst (indices b) + 1"

definition batch_range :: "batch \<Rightarrow> int list" where
  "batch_range b = [fst (indices b)..snd (indices b)]"

definition processed_ids :: "plan \<Rightarrow> int set" where
  "processed_ids batches = {k. \<exists>b. map_of batches k = Some b \<and> processed b}"

section \<open>The checkpoint scanner (impacts\_common.match\_batch\_results)\<close>

text \<open>
  The results directory is a list of entries (file name, content), in the order
  \<^verbatim>\<open>os.listdir\<close> returns them. \<open>get_files_in_dir\<close> joins each name that ends with the
  extension to the directory path.
\<close>

definition get_files_in_dir :: "string \<Rightarrow> string \<Rightarrow> string list \<Rightarrow> string list" where
  "get_files_in_dir dir_path extension listing =
     map (os_path_join dir_path) (filter (\<lambda>file. endswith file extension) listing)"

text \<open>The batch id text of a result file: \<^verbatim>\<open>f.split("/")[-1].split("_")[-1].split(".")[0]\<close>.\<close>

definition file_batch_id :: "string \<Rightarrow> string" where
  "file_batch_id json_file =
     hd (str_split ''.'' (last (str_split ''_'' (last (str_split ''/'' json_file)))))"

text \<open>
  The loop over the matching files. \<^verbatim>\<open>batches[int(batch_id)]["processed"] = True\<close>
  raises ValueError when the text is no integer and KeyError when the plan has no such
  id; the plan is mutated in place, so the plan as it is at the exception is returned
  with the exception.
\<close>

fun mark_files :: "string list \<Rightarrow> plan \<Rightarrow> plan \<times> exn option" where
  "mark_files [] batches = (batches, None)"
| "mark_files (json_file # rest) batches =
     (case py_int (file_batch_id json_file) of
        Inl e \<Rightarrow> (batches, Some e)
      | Inr k \<Rightarrow>
          (case map_of batches k of
             None \<Rightarrow> (batches, Some KeyError)
           | Some b \<Rightarrow> mark_files rest (AList.update k (b\<lparr>processed := True\<rparr>) batches)))"

definition match_batch_results ::
    "string \<Rightarrow> plan \<Rightarrow> string \<Rightarrow> string list \<Rightarrow> plan \<times> exn option" where
  "match_batch_results file_uuid batches results_path listing =
     (let result_files = filter (str_contains file_uuid)
                           (get_files_in_dir results_path ''.json'' listing)
      in if result_files = [] then (batches, None)
         else mark_files result_files batches)"

text \<open>The name the driver gives the artifact of a batch: \<^verbatim>\<open>f"{lsr_uuid}_{batch_id}.json"\<close>.\<close>

definition batch_filename :: "string \<Rightarrow> int \<Rightarrow> string" where
  "batch_filename lsr_uuid batch_id = lsr_uuid @ ''_'' @ py_str batch_id @ ''.json''"

section \<open>Classifying the remarks of one batch (gpt\_common)\<close>

subsection \<open>json.loads on the text built from a response\<close>

text \<open>
  \<^verbatim>\<open>json.loads\<close> is a library function; it is modelled on the texts the pipeline
  hands it, which begin with an opening brace: objects whose keys are strings without
  escapes and whose values are integer literals. On such a text the model returns the
  dictionary Python returns (a repeated key keeps its first position and its last
  value), and JSONDecodeError where Python raises it. On anything else that may be
  valid JSON (escapes, fractions, exponents, strings, literals, arrays, nested objects)
  the result is \<open>Unmodelled\<close>.
\<close>

definition is_json_ws :: "char \<Rightarrow> bool" where
  "is_json_ws c = (c \<in> {CHR 0x20, CHR 0x09, CHR 0x0A, CHR 0x0D})"

definition skip_ws :: "string \<Rightarrow> string" where
  "skip_ws s = dropWhile is_json_ws s"

text \<open>The characters of a key up to its closing quote, and the text after the quote.\<close>

fun scan_key :: "string \<Rightarrow> exn + (string \<times> string)" where
  "scan_key [] = Inl JSONDecodeError"
| "scan_key (c # cs) =
     (if c = CHR 0x22 then Inr ([], cs)
      else if c = CHR 0x5C then Inl Unmodelled
      else if (of_char c :: nat) < 32 then Inl JSONDecodeError
      else (case scan_key cs of
              Inl e \<Rightarrow> Inl e
            | Inr (k, rest) \<Rightarrow> Inr (c # k, rest)))"

definition parse_number :: "string \<Rightarrow> exn + (rat \<times> string)" where
  "parse_number s =
     (let neg = (take 1 s = ''-'');
          t = (if neg then drop 1 s else s);
          ds = takeWhile is_digit t;
          rest = dropWhile is_digit t
      in if ds = [] then (if neg \<and> take 1 t = ''I'' then Inl Unmodelled else Inl JSONDecodeError)
         else if hd ds = CHR ''0'' \<and> 1 < length ds then Inl JSONDecodeError
         else if take 1 rest = ''.'' \<or> take 1 rest = ''e'' \<or> take 1 rest = ''E''
           then Inl Unmodelled
         else Inr (of_int ((if neg then - 1 else 1) * int (digits_val ds)), rest))"

definition parse_value :: "string \<Rightarrow> exn + (rat \<times> string)" where
  \<open>parse_value s =
     (case s of
        [] \<Rightarrow> Inl JSONDecodeError
      | c # _ \<Rightarrow>
          if is_digit c \<or> c = CHR ''-'' then parse_number s
          else if c \<in> set ''"{[ntfNI'' then Inl Unmodelled
          else Inl JSONDecodeError)\<close>

text \<open>
  The members of an object, from the opening quote of a key to the closing brace. Each
  member consumes at least one character, so fuel equal to the length of the text is
  never used up.
\<close>

fun parse_members ::
    "nat \<Rightarrow> string \<Rightarrow> (string \<times> rat) list \<Rightarrow> exn + ((string \<times> rat) list \<times> string)" where
  "parse_members 0 s acc = Inl Unmodelled"
| "parse_members (Suc fuel) s acc =
     (if take 1 s \<noteq> [CHR 0x22] then Inl JSONDecodeError
      else
        case scan_key (drop 1 s) of
          Inl e \<Rightarrow> Inl e
        | Inr (key, r1) \<Rightarrow>
            if take 1 (skip_ws r1) \<noteq> '':'' then Inl JSONDecodeError
            else
              case parse_value (skip_ws (drop 1 (skip_ws r1))) of
                Inl e \<Rightarrow> Inl e
              | Inr (v, r2) \<Rightarrow>
                  if take 1 (skip_ws r2) = ''}'' then
                    Inr (AList.update key v acc, drop 1 (skip_ws r2))
                  else if take 1 (skip_ws r2) = '','' then
                    parse_members fuel (skip_ws (drop 1 (skip_ws r2)))
                      (AList.update key v acc)
                  else Inl JSONDecodeError)"

definition json_loads :: "string \<Rightarrow> exn + (string \<times> rat) list" where
  "json_loads s =
     (if skip_ws s = [] then Inl JSONDecodeError
      else if take 1 (skip_ws s) \<noteq> ''{'' then Inl Unmodelled
      else
        case (let body = skip_ws (drop 1 (skip_ws s))
              in if take 1 body = ''}'' then Inr ([], drop 1 body)
                 else parse_members (length s) body [])
        of
          Inl e \<Rightarrow> Inl e
        | Inr (obj, rest) \<Rightarrow> if skip_ws rest = [] then Inr obj else Inl JSONDecodeError)"

subsection \<open>The external service, the trace and the state\<close>

text \<open>
  The classification service (\<^verbatim>\<open>ChatCompletion.create\<close>) is a parameter: given the
  number of calls made before this one, the system task and the query, it returns the
  text of the first completion or raises. What the run does to the outside is recorded
  in a trace: every call of \<^verbatim>\<open>query_gpt\<close>, every \<^verbatim>\<open>wait_timeout\<close>, every artifact
  written, every batch skipped.
\<close>

type_synonym service = "nat \<Rightarrow> string \<Rightarrow> string \<Rightarrow> exn + string"

datatype event = Query string | Wait int | Write string | Skip int

text \<open>
  One classified remark, \<^verbatim>\<open>[remark, probs_dict, score, response_extra]\<close>; the records of
  a batch by local index; an artifact, the same dictionary as \<^verbatim>\<open>json.dump\<close> writes and
  \<^verbatim>\<open>json.loads\<close> reads it back, with the text of each index as key.
\<close>

type_synonym lsr_result = "string \<times> (string \<times> rat) list \<times> rat \<times> string"

type_synonym artifact = "(string \<times> lsr_result) list"

record state =
  batches :: plan
  results_dir :: "(string \<times> artifact) list"
  trace :: "event list"
  api_calls :: nat
  batches_skipped :: int
  batches_processed :: int
  processed_lsrs :: "(int \<times> lsr_result) list option"

definition wait_timeout :: "int \<Rightarrow> state \<Rightarrow> state" where
  "wait_timeout seconds s = s\<lparr>trace := trace s @ [Wait seconds]\<rparr>"

definition NO_REMARK :: string where
  \<open>NO_REMARK = ''{"MINOR": 0,\<newline>                 "MODERATE": 0,\<newline>                 "SERIOUS": 0,\<newline>                 "SEVERE": 0,\<newline>                 "CATASTROPHIC": 0\<newline>                 }NO REMARK FOR THIS LSR!''\<close>

definition ZERO_CLASSES :: string where
  \<open>ZERO_CLASSES = ''"MINOR": 0,\<newline>                               "MODERATE": 0,\<newline>                               "SERIOUS": 0,\<newline>                               "SEVERE": 0,\<newline>                               "CATASTROPHIC": 0''\<close>

text \<open>
  \<^verbatim>\<open>query_gpt\<close>: a non-empty, non-blank query goes to the service; any other query is
  answered with the fixed text, without a call.
\<close>

definition query_gpt :: "service \<Rightarrow> string \<Rightarrow> string \<Rightarrow> state \<Rightarrow> state \<times> (exn + string)" where
  "query_gpt gpt impact_defs query s =
     (let s1 = s\<lparr>trace := trace s @ [Query query]\<rparr>
      in if query \<noteq> [] \<and> query \<noteq> '' '' then
           (s1\<lparr>api_calls := api_calls s + 1\<rparr>, gpt (api_calls s) impact_defs query)
         else (s1, Inr NO_REMARK))"

text \<open>The text parts cut out of a response, and the text handed to \<^verbatim>\<open>json.loads\<close>.\<close>

definition response_extra :: "string \<Rightarrow> string" where
  "response_extra result = last (str_split ''\<newline>\<newline>'' (last (str_split ''}'' result)))"

definition response_classes :: "string \<Rightarrow> string" where
  "response_classes result = hd (str_split ''}'' (last (str_split ''{'' result)))"

definition response_json :: "string \<Rightarrow> string" where
  "response_json result =
     ''{'' @ (if response_classes result = response_extra result then ZERO_CLASSES
             else response_classes result) @ ''}''"

text \<open>From the response of one item to its record (lines 184 to 218 of the loop body).\<close>

definition classify_response :: "string \<Rightarrow> string \<Rightarrow> exn + lsr_result" where
  "classify_response remark result =
     (case json_loads (response_json result) of
        Inl e \<Rightarrow> Inl e
      | Inr probs_dict \<Rightarrow>
          (case ffsi_score (PDict probs_dict) False of
             Inl e \<Rightarrow> Inl e
           | Inr score \<Rightarrow> Inr (remark, probs_dict, score, response_extra result)))"

text \<open>
  The loop of \<^verbatim>\<open>classify_lsr_remarks\<close> from position \<open>index\<close>: an exception leaves the
  loop at once; the pause follows every item but the last of the list.
\<close>

fun classify_loop ::
    "service \<Rightarrow> string \<Rightarrow> int \<Rightarrow> int \<Rightarrow> int \<Rightarrow> int \<Rightarrow> string list \<Rightarrow>
     (int \<times> lsr_result) list \<Rightarrow> state \<Rightarrow> state \<times> (exn + (int \<times> lsr_result) list)" where
  "classify_loop gpt impact_defs wait_time limit total_lsrs index [] results s = (s, Inr results)"
| "classify_loop gpt impact_defs wait_time limit total_lsrs index (remark # rest) results s =
     (case query_gpt gpt impact_defs remark s of
        (s1, Inl e) \<Rightarrow> (s1, Inl e)
      | (s1, Inr result) \<Rightarrow>
          (case classify_response remark result of
             Inl e \<Rightarrow> (s1, Inl e)
           | Inr r \<Rightarrow>
               if limit \<noteq> 0 \<and> index = limit - 1 then (s1, Inr (AList.update index r results))
               else
                 classify_loop gpt impact_defs wait_time limit total_lsrs (index + 1) rest
                   (AList.update index r results)
                   (if index < total_lsrs - 1 then wait_timeout wait_time s1 else s1)))"

definition classify_lsr_remarks ::
    "service \<Rightarrow> string list \<Rightarrow> string \<Rightarrow> int \<Rightarrow> int \<Rightarrow> int \<Rightarrow> state \<Rightarrow>
     state \<times> (exn + (int \<times> lsr_result) list)" where
  "classify_lsr_remarks gpt lsr_remarks_list impact_defs wait_time starting_idx limit s =
     (let remarks = (if starting_idx \<noteq> 0
                     then py_slice lsr_remarks_list starting_idx (int (length lsr_remarks_list))
                     else lsr_remarks_list)
      in classify_loop gpt impact_defs wait_time limit (int (length remarks)) 0 remarks [] s)"

section \<open>The driver loop (gpt\_classify.main, lines 87 to 157)\<close>

text \<open>
  The values \<^verbatim>\<open>main\<close> works with: the module constants, the identifier of the run, the
  text of the definitions and the \<^verbatim>\<open>remark\<close> column of the reports.
\<close>

record run =
  BATCH_SIZE :: int
  MAX_BATCHES :: int
  WAIT_TIME :: int
  RESULTS_OUTPUT :: string
  lsr_uuid :: string
  impact_defs :: string
  remarks :: "string list"

text \<open>The classes of the \<^verbatim>\<open>except\<close> clause.\<close>

definition caught :: "exn \<Rightarrow> bool" where
  "caught e = (e \<in> {RateLimitError, ServiceUnavailableError, APIError, OSError})"

text \<open>\<^verbatim>\<open>json.dump\<close> of the records of a batch: each integer key becomes its text.\<close>

definition json_dump :: "(int \<times> lsr_result) list \<Rightarrow> artifact" where
  "json_dump results = map (\<lambda>(index, r). (py_str index, r)) results"

text \<open>
  The \<^verbatim>\<open>try\<close> statement: the first attempt, and after a caught exception the wait of
  ten seconds and the second attempt, whose exceptions nothing catches.
\<close>

definition attempt_batch ::
    "run \<Rightarrow> service \<Rightarrow> string list \<Rightarrow> state \<Rightarrow> state \<times> (exn + (int \<times> lsr_result) list)" where
  "attempt_batch cfg gpt current_lsrs s =
     (case classify_lsr_remarks gpt current_lsrs (impact_defs cfg) (WAIT_TIME cfg) 0 0 s of
        (s1, Inr results) \<Rightarrow> (s1, Inr results)
      | (s1, Inl e) \<Rightarrow>
          if caught e then
            classify_lsr_remarks gpt current_lsrs (impact_defs cfg) (WAIT_TIME cfg) 0 0
              (wait_timeout 10 s1)
          else (s1, Inl e))"

text \<open>Lines 136 to 147: write the artifact, mark the batch, count it.\<close>

definition complete_batch :: "run \<Rightarrow> int \<Rightarrow> batch \<Rightarrow> (int \<times> lsr_result) list \<Rightarrow> state \<Rightarrow> state" where
  "complete_batch cfg batch_id b results s =
     s\<lparr>results_dir :=
         AList.update (batch_filename (lsr_uuid cfg) batch_id) (json_dump results)
           (results_dir s),
       trace := trace s @
         [Write (os_path_join (RESULTS_OUTPUT cfg) (batch_filename (lsr_uuid cfg) batch_id))],
       batches := AList.update batch_id (b\<lparr>processed := True\<rparr>) (batches s),
       batches_processed := batches_processed s + 1,
       processed_lsrs := Some results\<rparr>"

text \<open>The body of the loop for one batch id; the exception that ends the run, if any.\<close>

definition process_batch :: "run \<Rightarrow> service \<Rightarrow> int \<Rightarrow> state \<Rightarrow> state \<times> exn option" where
  "process_batch cfg gpt batch_id s =
     (case map_of (batches s) batch_id of
        None \<Rightarrow> (s, Some KeyError)
      | Some b \<Rightarrow>
          if processed b then
            (s\<lparr>batches_skipped := batches_skipped s + 1,
               trace := trace s @ [Skip batch_id],
               processed_lsrs := None\<rparr>, None)
          else
            let current_lsrs = py_slice (remarks cfg) (fst (indices b)) (snd (indices b) + 1)
            in case attempt_batch cfg gpt current_lsrs s of
                 (s1, Inl e) \<Rightarrow> (s1, Some e)
               | (s1, Inr results) \<Rightarrow> (complete_batch cfg batch_id b results s1, None))"

fun driver_loop :: "run \<Rightarrow> service \<Rightarrow> int list \<Rightarrow> state \<Rightarrow> state \<times> exn option" where
  "driver_loop cfg gpt [] s = (s, None)"
| "driver_loop cfg gpt (batch_id # rest) s =
     (case process_batch cfg gpt batch_id s of
        (s1, Some e) \<Rightarrow> (s1, Some e)
      | (s1, None) \<Rightarrow>
          if MAX_BATCHES cfg \<noteq> 0 \<and> batch_id = MAX_BATCHES cfg then (s1, None)
          else driver_loop cfg gpt rest s1)"

text \<open>\<^verbatim>\<open>for batch_id in batches\<close>: the ids of the plan in insertion order.\<close>

definition run_driver :: "run \<Rightarrow> service \<Rightarrow> state \<Rightarrow> state \<times> exn option" where
  "run_driver cfg gpt s = driver_loop cfg gpt (map fst (batches s)) s"

text \<open>The state at line 87: the plan after the scan, the directory, nothing done yet.\<close>

definition initial_state :: "plan \<Rightarrow> (string \<times> artifact) list \<Rightarrow> state" where
  "initial_state plan0 dir =
     \<lparr>batches = plan0, results_dir = dir, trace = [], api_calls = 0,
      batches_skipped = 0, batches_processed = 0, processed_lsrs = None\<rparr>"

text \<open>The events of a trace that are calls of \<^verbatim>\<open>query_gpt\<close>, and the artifacts written.\<close>

definition queries :: "event list \<Rightarrow> string list" where
  "queries t = concat (map (\<lambda>e. case e of Query q \<Rightarrow> [q] | _ \<Rightarrow> []) t)"

definition writes :: "event list \<Rightarrow> string list" where
  "writes t = concat (map (\<lambda>e. case e of Write f \<Rightarrow> [f] | _ \<Rightarrow> []) t)"

section \<open>Consolidation (gpt\_classify.main, lines 176 to 227)\<close>

text \<open>
  A row of the output table: the row of the report as it was read, and the seven new
  columns, \<open>None\<close> until a record fills them. The table has the default index
  \<open>0, \<dots>, N - 1\<close>, so \<^verbatim>\<open>output_lsrs.loc[idx]\<close> raises KeyError outside of it.
\<close>

record 'a out_row =
  lsr :: 'a
  MINOR :: "rat option"
  MODERATE :: "rat option"
  SERIOUS :: "rat option"
  SEVERE :: "rat option"
  CATASTROPHIC :: "rat option"
  FFSI :: "rat option"
  EXTRA :: "string option"

definition empty_row :: "'a \<Rightarrow> 'a out_row" where
  "empty_row r =
     \<lparr>lsr = r, MINOR = None, MODERATE = None, SERIOUS = None, SEVERE = None,
      CATASTROPHIC = None, FFSI = None, EXTRA = None\<rparr>"

definition fill_row ::
    "rat \<Rightarrow> rat \<Rightarrow> rat \<Rightarrow> rat \<Rightarrow> rat \<Rightarrow> rat \<Rightarrow> string \<Rightarrow> 'a out_row \<Rightarrow> 'a out_row" where
  "fill_row p_min p_mod p_ser p_sev p_cat score extra row =
     row\<lparr>MINOR := Some (p_min / 100), MODERATE := Some (p_mod / 100),
         SERIOUS := Some (p_ser / 100), SEVERE := Some (p_sev / 100),
         CATASTROPHIC := Some (p_cat / 100), FFSI := Some score, EXTRA := Some extra\<rparr>"

text \<open>
  One record of an artifact (lines 210 to 224). The values are read before the first
  assignment, and every assignment looks the row up, so an exception leaves the table
  as it was.

  Each of the seven assignments \<^verbatim>\<open>output_lsrs.loc[idx][column] = value\<close> is chained:
  \<^verbatim>\<open>output_lsrs.loc[idx]\<close> returns a row object and the value is stored into that object.
  The frame library leaves open whether the row object is a view of the table or a copy
  of the row (with copy-on-write it is always a copy), and the source does not fix the
  version of the library. \<open>loc_is_view\<close> says which it is: with a view the cell of the table
  changes; with a copy the value ends in a temporary row and the table is as before.
\<close>

definition consolidate_record ::
    "bool \<Rightarrow> int \<Rightarrow> string \<times> lsr_result \<Rightarrow> 'a out_row list \<Rightarrow> exn + 'a out_row list" where
  "consolidate_record loc_is_view start_index entry output_lsrs =
     (case entry of (batch_index, (remark, probs_dict, score, extra)) \<Rightarrow>
        (case py_int batch_index of
           Inl e \<Rightarrow> Inl e
         | Inr i \<Rightarrow>
             (case (map_of probs_dict ''MINOR'', map_of probs_dict ''MODERATE'',
                    map_of probs_dict ''SERIOUS'', map_of probs_dict ''SEVERE'',
                    map_of probs_dict ''CATASTROPHIC'') of
                (Some p_min, Some p_mod, Some p_ser, Some p_sev, Some p_cat) \<Rightarrow>
                  let idx = start_index + i
                  in if 0 \<le> idx \<and> idx < int (length output_lsrs) then
                       let row = fill_row p_min p_mod p_ser p_sev p_cat score extra
                                   (output_lsrs ! nat idx)
                       in Inr (if loc_is_view then output_lsrs[nat idx := row]
                               else output_lsrs)
                     else Inl KeyError
              | _ \<Rightarrow> Inl KeyError)))"

fun consolidate_records ::
    "bool \<Rightarrow> int \<Rightarrow> artifact \<Rightarrow> 'a out_row list \<Rightarrow> exn + 'a out_row list" where
  "consolidate_records loc_is_view start_index [] output_lsrs = Inr output_lsrs"
| "consolidate_records loc_is_view start_index (entry # rest) output_lsrs =
     (case consolidate_record loc_is_view start_index entry output_lsrs of
        Inl e \<Rightarrow> Inl e
      | Inr t \<Rightarrow> consolidate_records loc_is_view start_index rest t)"

text \<open>\<^verbatim>\<open>read_json_results\<close>: the content of the directory entry with this path.\<close>

definition read_json_results ::
    "string \<Rightarrow> (string \<times> artifact) list \<Rightarrow> string \<Rightarrow> exn + artifact" where
  "read_json_results dir_path dir json_file =
     (case map_of (map (\<lambda>(name, content). (os_path_join dir_path name, content)) dir)
             json_file of
        None \<Rightarrow> Inl OSError
      | Some content \<Rightarrow> Inr content)"

fun consolidate_files ::
    "bool \<Rightarrow> run \<Rightarrow> (string \<times> artifact) list \<Rightarrow> string list \<Rightarrow> 'a out_row list \<Rightarrow>
     exn + 'a out_row list" where
  "consolidate_files loc_is_view cfg dir [] output_lsrs = Inr output_lsrs"
| "consolidate_files loc_is_view cfg dir (json_file # rest) output_lsrs =
     (case read_json_results (RESULTS_OUTPUT cfg) dir json_file of
        Inl e \<Rightarrow> Inl e
      | Inr batch_results \<Rightarrow>
          (case py_int (file_batch_id json_file) of
             Inl e \<Rightarrow> Inl e
           | Inr batch_id \<Rightarrow>
               (case consolidate_records loc_is_view (batch_id * BATCH_SIZE cfg)
                       batch_results output_lsrs of
                  Inl e \<Rightarrow> Inl e
                | Inr t \<Rightarrow> consolidate_files loc_is_view cfg dir rest t)))"

text \<open>
  The whole pass: \<open>None\<close> when no artifact of the run is found (no table is written),
  otherwise the table written to the CSV file.
\<close>

definition consolidate ::
    "bool \<Rightarrow> run \<Rightarrow> 'a list \<Rightarrow> (string \<times> artifact) list \<Rightarrow>
     exn + 'a out_row list option" where
  "consolidate loc_is_view cfg lsr_reports dir =
     (let result_files = filter (str_contains (lsr_uuid cfg))
                           (get_files_in_dir (RESULTS_OUTPUT cfg) ''.json'' (map fst dir))
      in if result_files = [] then Inr None
         else
           case consolidate_files loc_is_view cfg dir result_files
                  (map empty_row lsr_reports) of
             Inl e \<Rightarrow> Inl e
           | Inr t \<Rightarrow> Inr (Some t))"

section \<open>Notions used in the statements\<close>

text \<open>The plan for a non-zero batch size, written out.\<close>

definition plan_of :: "int \<Rightarrow> int \<Rightarrow> plan" where
  "plan_of n batch_size =
     map (\<lambda>k. (k, full_batch batch_size k)) [0..n div batch_size - 1] @
     (if n mod batch_size > 0
      then [(n div batch_size,
             \<lparr>indices = (batch_size * (n div batch_size),
                         batch_size * (n div batch_size) + n mod batch_size - 1),
              processed = False\<rparr>)]
      else [])"

text \<open>The plan with the batches of the ids in \<open>K\<close> marked as processed.\<close>

definition set_processed :: "int set \<Rightarrow> plan \<Rightarrow> plan" where
  "set_processed K p = map (\<lambda>(k, b). (k, if k \<in> K then b\<lparr>processed := True\<rparr> else b)) p"

text \<open>What a classification leaves alone: everything but the trace and the call counter.\<close>

definition frame :: "state \<Rightarrow> state \<Rightarrow> bool" where
  "frame s s' \<longleftrightarrow>
     batches s' = batches s \<and> results_dir s' = results_dir s
     \<and> batches_skipped s' = batches_skipped s
     \<and> batches_processed s' = batches_processed s
     \<and> processed_lsrs s' = processed_lsrs s"

text \<open>The events of one complete pass over the remarks of a batch.\<close>

fun batch_events :: "int \<Rightarrow> string list \<Rightarrow> event list" where
  "batch_events w [] = []"
| "batch_events w [r] = [Query r]"
| "batch_events w (r # r' # rs) = Query r # Wait w # batch_events w (r' # rs)"

definition batch_path :: "run \<Rightarrow> int \<Rightarrow> string" where
  "batch_path cfg k = os_path_join (RESULTS_OUTPUT cfg) (batch_filename (lsr_uuid cfg) k)"

definition batch_remarks :: "run \<Rightarrow> batch \<Rightarrow> string list" where
  "batch_remarks cfg b = py_slice (remarks cfg) (fst (indices b)) (snd (indices b) + 1)"

text \<open>The events of a batch in a run without failures, by its entry in the plan.\<close>

definition batch_trace :: "run \<Rightarrow> plan \<Rightarrow> int \<Rightarrow> event list" where
  "batch_trace cfg p k =
     (case map_of p k of
        None \<Rightarrow> []
      | Some b \<Rightarrow>
          if processed b then [Skip k]
          else batch_events (WAIT_TIME cfg) (batch_remarks cfg b) @ [Write (batch_path cfg k)])"

text \<open>A service that answers every call with a text the item processing accepts.\<close>

definition always_answers :: "service \<Rightarrow> bool" where
  "always_answers gpt \<longleftrightarrow>
     (\<forall>n d q. \<exists>r x. gpt n d q = Inr r \<and> classify_response q r = Inr x)"

text \<open>The events a classification of the remarks \<open>rs\<close> can add to the trace.\<close>

definition classify_event :: "string list \<Rightarrow> event \<Rightarrow> bool" where
  "classify_event rs e = (case e of Query q \<Rightarrow> q \<in> set rs | Wait w \<Rightarrow> True | _ \<Rightarrow> False)"

text \<open>The remarks of the batch \<open>k\<close> if it is in the plan and not processed.\<close>

definition pending_remarks :: "run \<Rightarrow> plan \<Rightarrow> int \<Rightarrow> string list" where
  "pending_remarks cfg p k =
     (case map_of p k of
        Some b \<Rightarrow> if processed b then [] else batch_remarks cfg b
      | None \<Rightarrow> [])"

text \<open>The batches a trace skipped, and whether the plan has a batch as processed.\<close>

definition skips :: "event list \<Rightarrow> int list" where
  "skips t = concat (map (\<lambda>e. case e of Skip k \<Rightarrow> [k] | _ \<Rightarrow> []) t)"

definition is_processed :: "plan \<Rightarrow> int \<Rightarrow> bool" where
  "is_processed p k = (case map_of p k of Some b \<Rightarrow> processed b | None \<Rightarrow> False)"

text \<open>
  The batch ids the loop visits when nothing ends it: all of them, or with a ceiling
  those up to the first id equal to \<open>MAX_BATCHES\<close>.
\<close>

fun visited :: "run \<Rightarrow> int list \<Rightarrow> int list" where
  "visited cfg [] = []"
| "visited cfg (k # ks) =
     k # (if MAX_BATCHES cfg \<noteq> 0 \<and> k = MAX_BATCHES cfg then [] else visited cfg ks)"

text \<open>
  For each call of \<^verbatim>\<open>query_gpt\<close> in a trace, the number of pauses between it and the
  next call (or the end of the trace).
\<close>

fun waits_after :: "event list \<Rightarrow> nat list" where
  "waits_after [] = []"
| "waits_after (Query q # t) =
     length (filter (\<lambda>e. case e of Wait w \<Rightarrow> True | _ \<Rightarrow> False)
               (takeWhile (\<lambda>e. case e of Query q' \<Rightarrow> False | _ \<Rightarrow> True) t))
     # waits_after t"
| "waits_after (e # t) = waits_after t"

subsection \<open>A small run\<close>

text \<open>
  Five remarks in batches of two, with the constants of the module otherwise; a
  service that answers every call with an empty object (which the item processing
  replaces by the all-zero classes), and one that always raises the rate limit error.
\<close>

definition small_run :: run where
  "small_run =
     \<lparr>BATCH_SIZE = 2, MAX_BATCHES = 0, WAIT_TIME = 20, RESULTS_OUTPUT = ''./results/'',
      lsr_uuid = ''run'', impact_defs = ''definitions'',
      remarks = [''a'', ''b'', ''c'', ''d'', ''e'']\<rparr>"

definition small_plan :: plan where
  "small_plan =
     [(0, \<lparr>indices = (0, 1), processed = False\<rparr>),
      (1, \<lparr>indices = (2, 3), processed = False\<rparr>),
      (2, \<lparr>indices = (4, 4), processed = False\<rparr>)]"

definition empty_answers :: service where
  "empty_answers n d q = Inr ''{}''"

definition rate_limited :: service where
  "rate_limited n d q = Inl RateLimitError"

text \<open>
  The small run resumed: the artifacts of the batches 0 and 1 are in the directory, and
  the plan is the one the checkpoint scanner returns for them.
\<close>

definition resumed_state :: state where
  "resumed_state =
     initial_state
       (fst (match_batch_results ''run'' small_plan ''./results/''
               [''run_0.json'', ''run_1.json'']))
       [(''run_0.json'', []), (''run_1.json'', [])]"

subsection \<open>Consolidated tables\<close>

text \<open>A record that has the five classes.\<close>

definition has_classes :: "lsr_result \<Rightarrow> bool" where
  "has_classes r =
     (case r of (remark, probs_dict, score, extra) \<Rightarrow>
        map_of probs_dict ''MINOR'' \<noteq> None \<and> map_of probs_dict ''MODERATE'' \<noteq> None
        \<and> map_of probs_dict ''SERIOUS'' \<noteq> None \<and> map_of probs_dict ''SEVERE'' \<noteq> None
        \<and> map_of probs_dict ''CATASTROPHIC'' \<noteq> None)"

text \<open>
  The artifact of a batch with the remarks \<open>rs\<close>: one record for every remark, under the
  text of its position in the batch, with the remark itself and the five classes.
\<close>

definition complete_artifact :: "string list \<Rightarrow> artifact \<Rightarrow> bool" where
  "complete_artifact rs a \<longleftrightarrow>
     map fst a = map (\<lambda>j. py_str (int j)) [0..<length rs]
     \<and> map (\<lambda>x. fst (snd x)) a = rs
     \<and> list_all (\<lambda>x. has_classes (snd x)) a"

text \<open>The row of a report with the classification fields of a record.\<close>

definition filled_row :: "lsr_result \<Rightarrow> 'a \<Rightarrow> 'a out_row" where
  "filled_row r x =
     (case r of (remark, probs_dict, score, extra) \<Rightarrow>
        \<lparr>lsr = x,
         MINOR = map_option (\<lambda>p. p / 100) (map_of probs_dict ''MINOR''),
         MODERATE = map_option (\<lambda>p. p / 100) (map_of probs_dict ''MODERATE''),
         SERIOUS = map_option (\<lambda>p. p / 100) (map_of probs_dict ''SERIOUS''),
         SEVERE = map_option (\<lambda>p. p / 100) (map_of probs_dict ''SEVERE''),
         CATASTROPHIC = map_option (\<lambda>p. p / 100) (map_of probs_dict ''CATASTROPHIC''),
         FFSI = Some score, EXTRA = Some extra\<rparr>)"

text \<open>
  The artifact of a batch of \<open>m\<close> items whose item \<open>j\<close> has the record \<open>r j\<close>, and the
  directory entry of the batch \<open>k\<close> of a plan.
\<close>

definition artifact_of :: "(int \<Rightarrow> lsr_result) \<Rightarrow> int \<Rightarrow> artifact" where
  "artifact_of r m = map (\<lambda>j. (py_str j, r j)) [0..m - 1]"

definition run_artifact ::
    "string \<Rightarrow> plan \<Rightarrow> (int \<Rightarrow> int \<Rightarrow> lsr_result) \<Rightarrow> int \<Rightarrow> string \<times> artifact" where
  "run_artifact uuid p recs k =
     (batch_filename uuid k,
      case map_of p k of
        Some b \<Rightarrow> artifact_of (recs k) (batch_length b)
      | None \<Rightarrow> [])"

text \<open>
  The table when the artifacts of the batches in \<open>K\<close> have been merged, and of the
  batch \<open>k\<close> the first \<open>m\<close> records: row \<open>i\<close> belongs to the batch \<open>i div batch_size\<close>
  and is item \<open>i mod batch_size\<close> of it.
\<close>

definition table_mid ::
    "int \<Rightarrow> (int \<Rightarrow> int \<Rightarrow> lsr_result) \<Rightarrow> 'a list \<Rightarrow> int set \<Rightarrow> int \<Rightarrow> int \<Rightarrow>
     'a out_row list" where
  "table_mid batch_size recs lsr_reports K k m =
     map (\<lambda>i. if int i div batch_size \<in> K
                  \<or> (int i div batch_size = k \<and> int i mod batch_size < m)
               then filled_row (recs (int i div batch_size) (int i mod batch_size))
                      (lsr_reports ! i)
               else empty_row (lsr_reports ! i))
       [0..<length lsr_reports]"

definition table_after ::
    "int \<Rightarrow> (int \<Rightarrow> int \<Rightarrow> lsr_result) \<Rightarrow> 'a list \<Rightarrow> int set \<Rightarrow> 'a out_row list" where
  "table_after batch_size recs lsr_reports K =
     map (\<lambda>i. if int i div batch_size \<in> K
               then filled_row (recs (int i div batch_size) (int i mod batch_size))
                      (lsr_reports ! i)
               else empty_row (lsr_reports ! i))
       [0..<length lsr_reports]"

text \<open>
  The run of the specification's example: 25 reports in batches of 10, and a record for
  every position whose score is the position of the item in the whole table.
\<close>

definition run25 :: run where
  "run25 =
     \<lparr>BATCH_SIZE = 10, MAX_BATCHES = 0, WAIT_TIME = 20, RESULTS_OUTPUT = ''./results/'',
      lsr_uuid = ''run'', impact_defs = ''definitions'', remarks = replicate 25 ''remark''\<rparr>"

definition reports25 :: "nat list" where
  "reports25 = [0..<25]"

definition plan25 :: plan where
  "plan25 =
     [(0, \<lparr>indices = (0, 9), processed = False\<rparr>),
      (1, \<lparr>indices = (10, 19), processed = False\<rparr>),
      (2, \<lparr>indices = (20, 24), processed = False\<rparr>)]"

definition sample_record :: "int \<Rightarrow> int \<Rightarrow> lsr_result" where
  "sample_record k j =
     (''remark'',
      [(''MINOR'', 100), (''MODERATE'', 0), (''SERIOUS'', 0), (''SEVERE'', 0),
       (''CATASTROPHIC'', 0)],
      of_int (10 * k + j), ''note'')"

section \<open>Properties of the string operations\<close>

lemma str_split_none:
  "sep \<noteq> [] \<Longrightarrow> \<not> str_contains sep s \<Longrightarrow> str_split sep s = [s]"
  by (induction s) auto

lemma str_split_nonempty: "str_split sep s \<noteq> []"
  by (induction sep s rule: str_split.induct) (auto split: list.splits)

lemma str_contains_char: "str_contains [c] s \<longleftrightarrow> c \<in> set s"
  by (induction s) auto

lemma str_split_char_none: "c \<notin> set s \<Longrightarrow> str_split [c] s = [s]"
  by (simp add: str_split_none str_contains_char)

lemma str_split_char_two: "c \<in> set s \<Longrightarrow> 2 \<le> length (str_split [c] s)"
proof (induction s)
  case Nil
  then show ?case by simp
next
  case (Cons x xs)
  show ?case
  proof (cases "x = c")
    case True
    then show ?thesis
      using str_split_nonempty [of "[c]" xs] by (cases "str_split [c] xs") auto
  next
    case False
    then have "c \<in> set xs" using Cons.prems by simp
    then have "2 \<le> length (str_split [c] xs)" by (rule Cons.IH)
    then show ?thesis using False by (auto split: list.splits)
  qed
qed

lemma hd_str_split_char: "hd (str_split [c] s) = takeWhile (\<lambda>x. x \<noteq> c) s"
proof (induction s)
  case Nil
  then show ?case by simp
next
  case (Cons x xs)
  then show ?case
    using str_split_nonempty [of "[c]" xs] by (auto split: list.splits)
qed

lemma takeWhile_stop: "\<not> P c \<Longrightarrow> takeWhile P (ys @ c # zs) = takeWhile P ys"
  by (induction ys) auto

lemma last_str_split_char:
  "last (str_split [c] s) = rev (takeWhile (\<lambda>x. x \<noteq> c) (rev s))"
proof (induction s)
  case Nil
  then show ?case by simp
next
  case (Cons x xs)
  show ?case
  proof (cases "x = c")
    case True
    have "last (str_split [c] (x # xs)) = last (str_split [c] xs)"
      using True str_split_nonempty [of "[c]" xs] by simp
    moreover have "takeWhile (\<lambda>x. x \<noteq> c) (rev xs @ [c]) = takeWhile (\<lambda>x. x \<noteq> c) (rev xs)"
      using takeWhile_stop [of "\<lambda>x. x \<noteq> c" c "rev xs" "[]"] by simp
    ultimately show ?thesis using True Cons.IH by simp
  next
    case False
    show ?thesis
    proof (cases "c \<in> set xs")
      case True
      then obtain p q qs where r: "str_split [c] xs = p # q # qs"
        using str_split_char_two [of c xs]
        by (cases "str_split [c] xs"; cases "tl (str_split [c] xs)") auto
      have "last (str_split [c] (x # xs)) = last (str_split [c] xs)"
        using False r by simp
      moreover have "takeWhile (\<lambda>x. x \<noteq> c) (rev xs @ [x]) = takeWhile (\<lambda>x. x \<noteq> c) (rev xs)"
        using True by (intro takeWhile_append1 [of c]) auto
      ultimately show ?thesis using Cons.IH by simp
    next
      case notin: False
      have eq: "str_split [c] (x # xs) = [x # xs]"
        using False notin by (intro str_split_char_none) simp
      have a: "last (str_split [c] (x # xs)) = x # xs"
        by (subst eq) simp
      have "takeWhile (\<lambda>x. x \<noteq> c) (rev xs @ [x]) = rev xs @ [x]"
        using False notin by (intro takeWhile_eq_all_conv [THEN iffD2]) auto
      then have b: "rev (takeWhile (\<lambda>x. x \<noteq> c) (rev (x # xs))) = x # xs"
        by simp
      show ?thesis by (simp only: a b)
    qed
  qed
qed

lemma digit_chr_is_digit: "d < 10 \<Longrightarrow> is_digit (digit_chr d)"
proof -
  assume "d < 10"
  then have "d \<in> {0, 1, 2, 3, 4, 5, 6, 7, 8, 9}" by auto
  then show ?thesis by (auto simp: digit_chr_def is_digit_def)
qed

lemma digit_val_chr: "d < 10 \<Longrightarrow> digit_val (digit_chr d) = d"
proof -
  assume "d < 10"
  then have "d \<in> {0, 1, 2, 3, 4, 5, 6, 7, 8, 9}" by auto
  then show ?thesis by (auto simp: digit_chr_def digit_val_def)
qed

lemma nat_digits_digits: "\<forall>c \<in> set (nat_digits n). is_digit c"
proof (induction n rule: nat_digits.induct)
  case (1 n)
  show ?case
  proof (cases "n < 10")
    case True
    then show ?thesis by (simp add: nat_digits.simps [of n] digit_chr_is_digit)
  next
    case False
    then show ?thesis
      using 1 by (simp add: nat_digits.simps [of n] digit_chr_is_digit)
  qed
qed

lemma nat_digits_nonempty: "nat_digits n \<noteq> []"
  by (simp add: nat_digits.simps [of n])

lemma digits_val_snoc:
  "is_digit c \<Longrightarrow> digits_val (ds @ [c]) = digits_val ds * 10 + digit_val c"
  by (simp add: digits_val_def)

lemma digits_val_nat_digits: "digits_val (nat_digits n) = n"
proof (induction n rule: nat_digits.induct)
  case (1 n)
  show ?case
  proof (cases "n < 10")
    case True
    then show ?thesis
      by (simp add: nat_digits.simps [of n] digits_val_def digit_chr_is_digit digit_val_chr)
  next
    case False
    then have "digits_val (nat_digits (n div 10)) = n div 10" using 1 by simp
    then show ?thesis
      using False
      by (simp add: nat_digits.simps [of n] digits_val_snoc digit_chr_is_digit digit_val_chr)
  qed
qed

lemma digits_ok_digits: "\<forall>c \<in> set ds. is_digit c \<Longrightarrow> digits_ok p ds = (p \<or> ds \<noteq> [])"
  by (induction ds arbitrary: p) auto

lemma digit_not_space: "is_digit c \<Longrightarrow> \<not> py_isspace c"
  by (auto simp: is_digit_def py_isspace_def)

lemma strip_id: "s \<noteq> [] \<Longrightarrow> \<not> py_isspace (hd s) \<Longrightarrow> \<not> py_isspace (last s) \<Longrightarrow> strip s = s"
proof -
  assume a: "s \<noteq> []" "\<not> py_isspace (hd s)" "\<not> py_isspace (last s)"
  then have "dropWhile py_isspace s = s" by (cases s) auto
  moreover have "dropWhile py_isspace (rev s) = rev s"
    using a by (cases "rev s") (auto simp: hd_rev)
  ultimately show ?thesis by (simp add: strip_def)
qed

lemma py_int_nat_digits: "py_int (nat_digits n) = Inr (int n)"
proof -
  let ?t = "nat_digits n"
  have ne: "?t \<noteq> []" by (rule nat_digits_nonempty)
  have dig: "\<forall>c \<in> set ?t. is_digit c" by (rule nat_digits_digits)
  have h: "is_digit (hd ?t)" and l: "is_digit (last ?t)" using ne dig by auto
  have s: "strip ?t = ?t" using ne h l by (simp add: strip_id digit_not_space)
  have nm: "take 1 ?t \<noteq> ''-''" "take 1 ?t \<noteq> ''+''"
    using ne h by (cases ?t; auto simp: is_digit_def)+
  show ?thesis
    unfolding py_int_def Let_def s
    using nm ne dig by (simp add: digits_ok_digits digits_val_nat_digits)
qed

lemma py_int_py_str: "py_int (py_str k) = Inr k"
proof (cases "k < 0")
  case False
  then show ?thesis by (simp add: py_str_def py_int_nat_digits)
next
  case True
  let ?d = "nat_digits (nat (- k))"
  let ?t = "CHR ''-'' # ?d"
  have ne: "?d \<noteq> []" by (rule nat_digits_nonempty)
  have dig: "\<forall>c \<in> set ?d. is_digit c" by (rule nat_digits_digits)
  have l: "is_digit (last ?d)" using ne dig by auto
  have "\<not> py_isspace (CHR ''-'')" by (simp add: py_isspace_def)
  then have s: "strip ?t = ?t" using ne l by (simp add: strip_id digit_not_space)
  have "py_int ?t = Inr (- int (nat (- k)))"
    unfolding py_int_def Let_def s
    using ne dig by (simp add: digits_ok_digits digits_val_nat_digits)
  then show ?thesis using True by (simp add: py_str_def)
qed

lemma str_contains_mid: "str_contains u (a @ u @ b)"
proof (induction a)
  case Nil
  show ?case
  proof (cases "u @ b")
    case Nil
    then show ?thesis by simp
  next
    case (Cons x xs)
    have "prefix u (x # xs)" unfolding Cons [symmetric] by simp
    then show ?thesis using Cons by simp
  qed
next
  case (Cons x a)
  then show ?case by simp
qed

lemma endswith_append: "endswith (a @ ext) ext"
  by (simp add: endswith_def)

lemma os_path_join_suffix: "\<exists>z. os_path_join a b = z @ b"
  by (auto simp: os_path_join_def intro: exI [of _ "[]"])

lemma py_str_chars: "c \<in> set (py_str k) \<Longrightarrow> is_digit c \<or> c = CHR ''-''"
  using nat_digits_digits by (auto simp: py_str_def split: if_splits)

lemma py_str_no_sep:
  "CHR ''/'' \<notin> set (py_str k)" "CHR ''_'' \<notin> set (py_str k)" "CHR ''.'' \<notin> set (py_str k)"
  using py_str_chars [of _ k] by (auto simp: is_digit_def)

lemma file_batch_id_artifact:
  "file_batch_id (a @ ''_'' @ py_str k @ ''.json'') = py_str k"
proof -
  let ?D = "py_str k @ ''.json''"
  let ?A = "rev (takeWhile (\<lambda>x. x \<noteq> CHR ''/'') (rev a))"
  have r1: "rev (a @ ''_'' @ ?D) = rev (''_'' @ ?D) @ rev a" by simp
  have "\<forall>x \<in> set (rev (''_'' @ ?D)). x \<noteq> CHR ''/''"
    using py_str_no_sep(1) [of k] by auto
  then have "takeWhile (\<lambda>x. x \<noteq> CHR ''/'') (rev (a @ ''_'' @ ?D))
      = rev (''_'' @ ?D) @ takeWhile (\<lambda>x. x \<noteq> CHR ''/'') (rev a)"
    unfolding r1 by (intro takeWhile_append2) auto
  then have "rev (takeWhile (\<lambda>x. x \<noteq> CHR ''/'') (rev (a @ ''_'' @ ?D))) = ?A @ ''_'' @ ?D"
    by simp
  then have 1: "last (str_split ''/'' (a @ ''_'' @ ?D)) = ?A @ ''_'' @ ?D"
    by (simp only: last_str_split_char)
  have r2: "rev (?A @ ''_'' @ ?D) = rev ?D @ CHR ''_'' # rev ?A" by simp
  have "\<forall>x \<in> set (rev ?D). x \<noteq> CHR ''_''"
    using py_str_no_sep(2) [of k] by auto
  then have "takeWhile (\<lambda>x. x \<noteq> CHR ''_'') (rev ?D @ CHR ''_'' # rev ?A) = rev ?D @ []"
    by (subst takeWhile_append2) auto
  then have "rev (takeWhile (\<lambda>x. x \<noteq> CHR ''_'') (rev (?A @ ''_'' @ ?D))) = ?D"
    unfolding r2 by simp
  then have 2: "last (str_split ''_'' (?A @ ''_'' @ ?D)) = ?D"
    by (simp only: last_str_split_char)
  have "takeWhile (\<lambda>x. x \<noteq> CHR ''.'') (py_str k @ ''.json'') = py_str k @ []"
    using py_str_no_sep(3) [of k] by (subst takeWhile_append2) auto
  then have 3: "hd (str_split ''.'' ?D) = py_str k"
    by (simp add: hd_str_split_char)
  show ?thesis
    unfolding file_batch_id_def 1 2 3 ..
qed

lemma file_batch_id_joined:
  "file_batch_id (os_path_join path (batch_filename uuid k)) = py_str k"
proof -
  obtain z where "os_path_join path (batch_filename uuid k) = z @ batch_filename uuid k"
    using os_path_join_suffix by blast
  then have "os_path_join path (batch_filename uuid k) = (z @ uuid) @ ''_'' @ py_str k @ ''.json''"
    by (simp add: batch_filename_def)
  then show ?thesis by (simp only: file_batch_id_artifact)
qed

lemma artifact_files_selected:
  "filter (str_contains uuid) (get_files_in_dir path ''.json'' (map (batch_filename uuid) ks))
   = map (\<lambda>k. os_path_join path (batch_filename uuid k)) ks"
proof -
  have e: "endswith (batch_filename uuid k) ''.json''" for k
    using endswith_append [of "uuid @ ''_'' @ py_str k" "''.json''"]
    by (simp add: batch_filename_def)
  have c: "str_contains uuid (os_path_join path (batch_filename uuid k))" for k
  proof -
    obtain z where "os_path_join path (batch_filename uuid k) = z @ batch_filename uuid k"
      using os_path_join_suffix by blast
    then have "os_path_join path (batch_filename uuid k) = z @ uuid @ (''_'' @ py_str k @ ''.json'')"
      by (simp add: batch_filename_def)
    then show ?thesis by (simp only: str_contains_mid)
  qed
  show ?thesis
    by (simp add: get_files_in_dir_def e c comp_def)
qed

section \<open>Properties of the batch plan\<close>

lemma update_fresh: "k \<notin> fst ` set al \<Longrightarrow> AList.update k v al = al @ [(k, v)]"
  by (induction al) auto

lemma fold_update_fresh:
  "distinct ks \<Longrightarrow> set ks \<inter> fst ` set acc = {} \<Longrightarrow>
   fold (\<lambda>b. AList.update b (f b)) ks acc = acc @ map (\<lambda>b. (b, f b)) ks"
proof (induction ks arbitrary: acc)
  case Nil
  then show ?case by simp
next
  case (Cons k ks)
  have fresh: "k \<notin> fst ` set acc" using Cons.prems(2) by auto
  have s: "set ks \<inter> fst ` set (acc @ [(k, f k)]) = {}"
    using Cons.prems by auto
  have d: "distinct ks" using Cons.prems(1) by simp
  show ?case using Cons.IH [OF d s] by (simp add: update_fresh [OF fresh])
qed

lemma define_batches_closed:
  assumes "batch_size \<noteq> 0"
  shows "define_batches n batch_size = Inr (plan_of n batch_size)"
proof -
  have f: "fold (\<lambda>b. AList.update b (full_batch batch_size b)) [0..n div batch_size - 1] []
      = map (\<lambda>k. (k, full_batch batch_size k)) [0..n div batch_size - 1]"
    using fold_update_fresh [of "[0..n div batch_size - 1]" "[]" "full_batch batch_size"]
    by simp
  have fresh: "n div batch_size \<notin>
      fst ` set (map (\<lambda>k. (k, full_batch batch_size k)) [0..n div batch_size - 1])"
    by (auto simp: image_iff)
  show ?thesis
    unfolding define_batches_def py_floordiv_def py_mod_def Let_def plan_of_def
    using assms by (simp add: f update_fresh [OF fresh])
qed

lemma concat_full_ranges:
  "0 < b \<Longrightarrow>
   concat (map (\<lambda>k. [b * k..b * (k + 1) - 1]) [0..int q - 1]) = [0..b * int q - 1]"
proof (induction q)
  case 0
  then show ?case by simp
next
  case (Suc q)
  have a: "[0..int (Suc q) - 1] = [0..int q - 1] @ [int q]"
    using upto_rec2 [of 0 "int q"] by simp
  have "[0..b * int (Suc q) - 1] = [0..b * int q - 1] @ [b * int q..b * int (Suc q) - 1]"
    using upto_split1 [of 0 "b * int q" "b * int (Suc q) - 1"] Suc.prems
    by (simp add: algebra_simps)
  moreover have "concat (map (\<lambda>k. [b * k..b * (k + 1) - 1]) [0..int (Suc q) - 1])
      = concat (map (\<lambda>k. [b * k..b * (k + 1) - 1]) [0..int q - 1])
        @ [b * int q..b * (int q + 1) - 1]"
    unfolding a by simp
  moreover have "b * (int q + 1) = b * int (Suc q)" by simp
  ultimately show ?case using Suc by simp
qed

lemma plan_of_ids:
  assumes "0 \<le> n" "0 < b"
  shows "map fst (plan_of n b) = [0..n div b + (if n mod b \<noteq> 0 then 1 else 0) - 1]"
proof -
  have q: "0 \<le> n div b" using assms by (simp add: pos_imp_zdiv_nonneg_iff)
  have "map fst (map (\<lambda>k. (k, full_batch b k)) [0..n div b - 1]) = [0..n div b - 1]"
    by (simp add: comp_def)
  moreover have "[0..n div b] = [0..n div b - 1] @ [n div b]"
    using upto_rec2 [of 0 "n div b"] q by simp
  moreover have "n mod b \<noteq> 0 \<Longrightarrow> 0 < n mod b"
    using pos_mod_sign [OF assms(2), of n] by linarith
  ultimately show ?thesis
    by (cases "n mod b = 0") (simp_all add: plan_of_def)
qed

lemma plan_of_lengths:
  assumes "0 \<le> n" "0 < b"
  shows "map (batch_length \<circ> snd) (plan_of n b) =
         replicate (nat (n div b)) b @ (if n mod b \<noteq> 0 then [n mod b] else [])"
proof -
  have "map (batch_length \<circ> snd) (map (\<lambda>k. (k, full_batch b k)) [0..n div b - 1])
        = map (\<lambda>k. b) [0..n div b - 1]"
    by (simp add: comp_def batch_length_def full_batch_def algebra_simps)
  also have "\<dots> = replicate (nat (n div b)) b"
    by (simp add: map_replicate_const)
  finally have full:
    "map (batch_length \<circ> snd) (map (\<lambda>k. (k, full_batch b k)) [0..n div b - 1])
        = replicate (nat (n div b)) b" .
  show ?thesis
  proof (cases "n mod b = 0")
    case True
    then show ?thesis using full by (simp add: plan_of_def)
  next
    case False
    then have "0 < n mod b"
      using pos_mod_sign [OF assms(2), of n] by linarith
    moreover have "n - b * (n div b) = n mod b"
      by (simp add: minus_mult_div_eq_mod)
    ultimately show ?thesis using full False
      by (simp add: plan_of_def batch_length_def)
  qed
qed

lemma plan_of_ranges:
  assumes "0 \<le> n" "0 < b"
  shows "concat (map (batch_range \<circ> snd) (plan_of n b)) = [0..n - 1]"
proof -
  have q: "0 \<le> n div b" using assms by (simp add: pos_imp_zdiv_nonneg_iff)
  have e: "b * (n div b) + n mod b = n" by simp
  have "concat (map (batch_range \<circ> snd) (map (\<lambda>k. (k, full_batch b k)) [0..n div b - 1]))
        = concat (map (\<lambda>k. [b * k..b * (k + 1) - 1]) [0..int (nat (n div b)) - 1])"
    using q by (simp add: comp_def batch_range_def full_batch_def)
  also have "\<dots> = [0..b * (n div b) - 1]"
    using concat_full_ranges [OF assms(2), of "nat (n div b)"] q by simp
  finally have full:
    "concat (map (batch_range \<circ> snd) (map (\<lambda>k. (k, full_batch b k)) [0..n div b - 1]))
        = [0..b * (n div b) - 1]" .
  show ?thesis
  proof (cases "n mod b = 0")
    case True
    then have "b * (n div b) = n" using e by simp
    then show ?thesis using True full by (simp add: plan_of_def)
  next
    case False
    then have pos: "0 < n mod b"
      using pos_mod_sign [OF assms(2), of n] by linarith
    have "[0..n - 1] = [0..b * (n div b) - 1] @ [b * (n div b)..n - 1]"
      using upto_split1 [of 0 "b * (n div b)" "n - 1"] q assms pos e by simp
    then show ?thesis using pos full e
      by (simp add: plan_of_def batch_range_def)
  qed
qed

lemma plan_of_total:
  assumes "0 \<le> n" "0 < b"
  shows "sum_list (map (batch_length \<circ> snd) (plan_of n b)) = n"
proof -
  have q: "0 \<le> n div b" using assms by (simp add: pos_imp_zdiv_nonneg_iff)
  have e: "(n div b) * b + n mod b = n" by simp
  show ?thesis
    unfolding plan_of_lengths [OF assms]
    using q e by (auto simp: sum_list_replicate)
qed

lemma plan_of_unprocessed: "bt \<in> snd ` set (plan_of n b) \<Longrightarrow> \<not> processed bt"
  by (auto simp: plan_of_def full_batch_def split: if_splits)

text \<open>
  Claim C3. For every item count \<open>n \<ge> 0\<close> and batch size \<open>b > 0\<close>,
  \<open>define_batches n b\<close> returns a plan whose batch ids are \<open>0, 1, \<dots>\<close> in increasing
  order, \<open>n div b\<close> of them full (of length \<open>b\<close>) followed by one partial batch of
  length \<open>n mod b\<close> exactly when \<open>n mod b \<noteq> 0\<close>; the inclusive index ranges of the
  batches, one after the other, are exactly \<open>0, \<dots>, n - 1\<close> (no gap, no overlap), and
  the batch lengths sum to \<open>n\<close>. Every batch starts unprocessed.
\<close>

theorem define_batches_partition:
  assumes "0 \<le> item_count" and "0 < batch_size"
  shows "\<exists>p. define_batches item_count batch_size = Inr p
     \<and> map fst p = [0..item_count div batch_size
                        + (if item_count mod batch_size \<noteq> 0 then 1 else 0) - 1]
     \<and> map (batch_length \<circ> snd) p =
         replicate (nat (item_count div batch_size)) batch_size
         @ (if item_count mod batch_size \<noteq> 0 then [item_count mod batch_size] else [])
     \<and> concat (map (batch_range \<circ> snd) p) = [0..item_count - 1]
     \<and> sum_list (map (batch_length \<circ> snd) p) = item_count
     \<and> (\<forall>bt \<in> snd ` set p. \<not> processed bt)"
proof -
  have ne: "batch_size \<noteq> 0" using assms(2) by simp
  show ?thesis
    using define_batches_closed [OF ne, of item_count]
      plan_of_ids [OF assms] plan_of_lengths [OF assms] plan_of_ranges [OF assms]
      plan_of_total [OF assms] plan_of_unprocessed [of _ item_count batch_size]
    by blast
qed

theorem define_batches_partition_witness:
  "(0::int) \<le> 25 \<and> (0::int) < 10
   \<and> (\<exists>p. define_batches 25 10 = Inr p
        \<and> map fst p = [0, 1, 2]
        \<and> map (batch_length \<circ> snd) p = [10, 10, 5]
        \<and> concat (map (batch_range \<circ> snd) p) = [0..24]
        \<and> sum_list (map (batch_length \<circ> snd) p) = 25
        \<and> (\<forall>bt \<in> snd ` set p. \<not> processed bt))"
proof -
  have r: "replicate 2 (10::int) = [10, 10]"
    by (simp add: numeral_2_eq_2)
  have u: "[0..(2::int)] = [0, 1, 2]"
    by (simp add: upto.simps)
  show ?thesis
    using define_batches_partition [of 25 10] by (simp add: r u)
qed

text \<open>
  Claim C9, as amended. With no items, \<open>define_batches\<close> returns the empty plan for
  every batch size other than zero; for the batch size zero it returns the plan of one
  batch, under the id \<open>0\<close>, with the indices \<open>(0, - 1)\<close>. It raises nothing, whatever
  the item count and the batch size are.
\<close>

theorem define_batches_no_items:
  "define_batches 0 batch_size =
     Inr (if batch_size = 0 then [(0, \<lparr>indices = (0, - 1), processed = False\<rparr>)] else [])
   \<and> (\<exists>p. define_batches item_count any_size = Inr p)"
proof -
  have "define_batches 0 0 = Inr [(0, \<lparr>indices = (0, - 1), processed = False\<rparr>)]"
    by (simp add: define_batches_def)
  moreover have "batch_size \<noteq> 0 \<Longrightarrow> define_batches 0 batch_size = Inr []"
    by (simp add: define_batches_closed plan_of_def)
  moreover have "\<exists>p. define_batches item_count any_size = Inr p"
  proof (cases "any_size = 0")
    case True
    then show ?thesis by (simp add: define_batches_def)
  next
    case False
    then show ?thesis by (simp add: define_batches_closed)
  qed
  ultimately show ?thesis by auto
qed

theorem define_batches_no_items_witness:
  "define_batches 0 7 = Inr []
   \<and> define_batches 0 0 = Inr [(0, \<lparr>indices = (0, - 1), processed = False\<rparr>)]
   \<and> (\<exists>p. define_batches 25 0 = Inr p)"
  using define_batches_no_items [of 7 25 0] define_batches_no_items [of 0 25 0]
  by simp

text \<open>The claim as it was stated fails at the batch size zero: the plan is not empty.\<close>

theorem define_batches_no_items_counterexample:
  "define_batches 0 0 \<noteq> Inr []"
  by (simp add: define_batches_def)

section \<open>Properties of the score function\<close>

text \<open>
  Claim C7. For a dictionary that has the five classes, the score is the sum of
  \<open>probability / 100 * weight\<close> with the weights 1 to 5 in the order MINOR, MODERATE,
  SERIOUS, SEVERE, CATASTROPHIC, and the normalized variant is that sum divided by 5.
  The witness evaluates it at the two dictionaries of the specification: all of the
  probability on MINOR gives 1 (normalized, 1/5), all on CATASTROPHIC gives 5
  (normalized, 1).
\<close>

theorem ffsi_score_weighted_sum:
  assumes "map_of d ''MINOR'' = Some p1" and "map_of d ''MODERATE'' = Some p2"
    and "map_of d ''SERIOUS'' = Some p3" and "map_of d ''SEVERE'' = Some p4"
    and "map_of d ''CATASTROPHIC'' = Some p5"
  shows "ffsi_score (PDict d) False =
           Inr (p1 / 100 * 1 + p2 / 100 * 2 + p3 / 100 * 3 + p4 / 100 * 4 + p5 / 100 * 5)
       \<and> ffsi_score (PDict d) True =
           Inr ((p1 / 100 * 1 + p2 / 100 * 2 + p3 / 100 * 3 + p4 / 100 * 4 + p5 / 100 * 5) / 5)"
  using assms by (simp add: ffsi_score_def)

theorem ffsi_score_weighted_sum_witness:
  "ffsi_score (PDict [(''MINOR'', 100), (''MODERATE'', 0), (''SERIOUS'', 0), (''SEVERE'', 0),
                      (''CATASTROPHIC'', 0)]) False = Inr 1
   \<and> ffsi_score (PDict [(''MINOR'', 100), (''MODERATE'', 0), (''SERIOUS'', 0), (''SEVERE'', 0),
                      (''CATASTROPHIC'', 0)]) True = Inr (1 / 5)
   \<and> ffsi_score (PDict [(''MINOR'', 0), (''MODERATE'', 0), (''SERIOUS'', 0), (''SEVERE'', 0),
                      (''CATASTROPHIC'', 100)]) False = Inr 5
   \<and> ffsi_score (PDict [(''MINOR'', 0), (''MODERATE'', 0), (''SERIOUS'', 0), (''SEVERE'', 0),
                      (''CATASTROPHIC'', 100)]) True = Inr 1"
  using
    ffsi_score_weighted_sum [of "[(''MINOR'', 100), (''MODERATE'', 0), (''SERIOUS'', 0),
        (''SEVERE'', 0), (''CATASTROPHIC'', 0)]" 100 0 0 0 0]
    ffsi_score_weighted_sum [of "[(''MINOR'', 0), (''MODERATE'', 0), (''SERIOUS'', 0),
        (''SEVERE'', 0), (''CATASTROPHIC'', 100)]" 0 0 0 0 100]
  by simp

section \<open>Responses without a probability object\<close>

lemma json_loads_zero:
  "json_loads (''{'' @ ZERO_CLASSES @ ''}'') =
     Inr [(''MINOR'', 0), (''MODERATE'', 0), (''SERIOUS'', 0), (''SEVERE'', 0),
          (''CATASTROPHIC'', 0)]"
  by code_simp

text \<open>
  What the substitution does cover: a response with no brace and no blank line is its
  own extra text, the all-zero classes replace it, and the item gets the score 0.
\<close>

lemma classify_response_plain_text:
  assumes "\<not> str_contains ''{'' result" and "\<not> str_contains ''}'' result"
    and "\<not> str_contains ''\<newline>\<newline>'' result"
  shows "classify_response remark result =
     Inr (remark,
          [(''MINOR'', 0), (''MODERATE'', 0), (''SERIOUS'', 0), (''SEVERE'', 0),
           (''CATASTROPHIC'', 0)],
          0, result)"
proof -
  have e: "response_extra result = result"
    using assms by (simp add: response_extra_def str_split_none)
  have c: "response_classes result = result"
    using assms by (simp add: response_classes_def str_split_none)
  have j: "response_json result = ''{'' @ ZERO_CLASSES @ ''}''"
    by (simp add: response_json_def e c)
  show ?thesis
    unfolding classify_response_def j json_loads_zero
    by (simp add: ffsi_score_def e)
qed

text \<open>
  Claim C6 at the failing input. The response below has no brace at all, so it holds no
  probability object; but it has a blank line, so the extra text is only its last
  paragraph and differs from the classes text. No substitution takes place: the text
  handed to \<open>json_loads\<close> is the response in braces, the item raises JSONDecodeError,
  the \<^verbatim>\<open>except\<close> clause does not catch it, and the call of \<open>classify_lsr_remarks\<close> ends
  with it.
\<close>

theorem classify_response_blank_line_raises:
  "\<not> str_contains ''{'' ''Sorry.\<newline>\<newline>I cannot classify this report.''
   \<and> \<not> str_contains ''}'' ''Sorry.\<newline>\<newline>I cannot classify this report.''
   \<and> response_json ''Sorry.\<newline>\<newline>I cannot classify this report.''
       = ''{Sorry.\<newline>\<newline>I cannot classify this report.}''
   \<and> classify_response ''Water over the road.''
         ''Sorry.\<newline>\<newline>I cannot classify this report.'' = Inl JSONDecodeError
   \<and> \<not> caught JSONDecodeError
   \<and> snd (classify_lsr_remarks
            (\<lambda>n task query. Inr ''Sorry.\<newline>\<newline>I cannot classify this report.'')
            [''Water over the road.''] ''definitions'' 20 0 0 (initial_state [] []))
       = Inl JSONDecodeError"
  by code_simp

section \<open>Properties of the checkpoint scanner\<close>

lemma set_processed_keys: "map fst (set_processed K p) = map fst p"
  by (induction p) (auto simp: set_processed_def)

lemma update_set_processed:
  "distinct (map fst p) \<Longrightarrow> map_of p k = Some b \<Longrightarrow>
   AList.update k (b\<lparr>processed := True\<rparr>) p = set_processed {k} p"
proof (induction p)
  case Nil
  then show ?case by simp
next
  case (Cons x p)
  obtain k' b' where x: "x = (k', b')" by (cases x)
  show ?case
  proof (cases "k' = k")
    case True
    then have "k \<notin> fst ` set p" using Cons.prems(1) x by auto
    then have "set_processed {k} p = p"
      by (force simp: set_processed_def intro!: map_idI)
    then show ?thesis using True Cons.prems x by (simp add: set_processed_def)
  next
    case False
    then show ?thesis using Cons x by (simp add: set_processed_def)
  qed
qed

lemma set_processed_twice:
  "set_processed K (set_processed L p) = set_processed (K \<union> L) p"
  by (induction p) (auto simp: set_processed_def)

lemma mark_files_present:
  "distinct (map fst p) \<Longrightarrow> set ks \<subseteq> fst ` set p \<Longrightarrow>
   mark_files (map (\<lambda>k. os_path_join path (batch_filename uuid k)) ks) p
   = (set_processed (set ks) p, None)"
proof (induction ks arbitrary: p)
  case Nil
  have "set_processed {} p = p"
    by (auto simp: set_processed_def intro!: map_idI)
  then show ?case by simp
next
  case (Cons k ks)
  from Cons.prems(2) obtain b where b: "map_of p k = Some b"
    by (cases "map_of p k") (auto simp: map_of_eq_None_iff)
  let ?p = "set_processed {k} p"
  have d: "distinct (map fst ?p)" using Cons.prems(1) by (simp add: set_processed_keys)
  have s: "set ks \<subseteq> fst ` set ?p"
    using Cons.prems(2) set_processed_keys [of "{k}" p]
    by (metis (no_types, lifting) image_set insert_subset list.simps(15))
  have "mark_files (map (\<lambda>k. os_path_join path (batch_filename uuid k)) ks) ?p
      = (set_processed (set ks) ?p, None)"
    using Cons.IH [OF d s] .
  then show ?case
    using b Cons.prems(1)
    by (simp add: file_batch_id_joined py_int_py_str update_set_processed
        set_processed_twice Un_commute insert_is_Un [symmetric])
qed

lemma mark_files_absent:
  "\<not> set ks \<subseteq> fst ` set p \<Longrightarrow>
   snd (mark_files (map (\<lambda>k. os_path_join path (batch_filename uuid k)) ks) p) = Some KeyError"
proof (induction ks arbitrary: p)
  case Nil
  then show ?case by simp
next
  case (Cons k ks)
  show ?case
  proof (cases "map_of p k")
    case None
    then show ?thesis by (simp add: file_batch_id_joined py_int_py_str)
  next
    case (Some b)
    let ?p = "AList.update k (b\<lparr>processed := True\<rparr>) p"
    have k: "k \<in> fst ` set p" using Some by (force dest: map_of_SomeD)
    have "map fst ?p = map fst p" using k by (simp add: update_keys)
    then have keys: "fst ` set ?p = fst ` set p" by (metis set_map)
    have "\<not> set ks \<subseteq> fst ` set ?p" using Cons.prems k keys by auto
    then have "snd (mark_files (map (\<lambda>k. os_path_join path (batch_filename uuid k)) ks) ?p)
        = Some KeyError" by (rule Cons.IH)
    then show ?thesis using Some by (simp add: file_batch_id_joined py_int_py_str)
  qed
qed

text \<open>
  Claim C4, as amended. Let the directory hold artifacts of the run, named by the batch
  ids \<open>ks\<close>, and let the plan be a dictionary (its ids are distinct). If every id
  of \<open>ks\<close> is in the plan, \<open>match_batch_results\<close> returns the plan with exactly
  these batches marked processed. If some id of \<open>ks\<close> is not in the plan, it does not
  return normally: \<^verbatim>\<open>batches[int(batch_id)]\<close> raises KeyError.
\<close>

theorem match_batch_results_artifacts:
  assumes "distinct (map fst p)"
  shows "(set ks \<subseteq> fst ` set p \<longrightarrow>
            match_batch_results uuid p path (map (batch_filename uuid) ks)
            = (set_processed (set ks) p, None))
       \<and> (\<not> set ks \<subseteq> fst ` set p \<longrightarrow>
            snd (match_batch_results uuid p path (map (batch_filename uuid) ks))
            = Some KeyError)"
proof -
  have e: "set_processed {} p = p"
    by (auto simp: set_processed_def intro!: map_idI)
  show ?thesis
    unfolding match_batch_results_def Let_def artifact_files_selected
    using assms mark_files_present [of p ks path uuid] mark_files_absent [of ks p path uuid]
    by (cases ks) (auto simp: e)
qed

theorem match_batch_results_artifacts_witness:
  "distinct (map fst [(0::int, \<lparr>indices = (0, 9), processed = False\<rparr>),
                      (1, \<lparr>indices = (10, 19), processed = False\<rparr>),
                      (2, \<lparr>indices = (20, 24), processed = False\<rparr>)])
   \<and> match_batch_results ''run''
         [(0, \<lparr>indices = (0, 9), processed = False\<rparr>),
          (1, \<lparr>indices = (10, 19), processed = False\<rparr>),
          (2, \<lparr>indices = (20, 24), processed = False\<rparr>)]
         ''./results/'' (map (batch_filename ''run'') [0, 1])
       = ([(0, \<lparr>indices = (0, 9), processed = True\<rparr>),
           (1, \<lparr>indices = (10, 19), processed = True\<rparr>),
           (2, \<lparr>indices = (20, 24), processed = False\<rparr>)], None)
   \<and> snd (match_batch_results ''run''
         [(0, \<lparr>indices = (0, 9), processed = False\<rparr>),
          (1, \<lparr>indices = (10, 19), processed = False\<rparr>),
          (2, \<lparr>indices = (20, 24), processed = False\<rparr>)]
         ''./results/'' (map (batch_filename ''run'') [0, 7]))
       = Some KeyError"
  using
    match_batch_results_artifacts [of "[(0, \<lparr>indices = (0, 9), processed = False\<rparr>),
          (1, \<lparr>indices = (10, 19), processed = False\<rparr>),
          (2, \<lparr>indices = (20, 24), processed = False\<rparr>)]" "[0, 1]" "''run''" "''./results/''"]
    match_batch_results_artifacts [of "[(0, \<lparr>indices = (0, 9), processed = False\<rparr>),
          (1, \<lparr>indices = (10, 19), processed = False\<rparr>),
          (2, \<lparr>indices = (20, 24), processed = False\<rparr>)]" "[0, 7]" "''run''" "''./results/''"]
  by (simp add: set_processed_def)

text \<open>
  The claim as it was stated fails on a stale artifact: with the plan of 25 items in
  batches of 10 and the files of the batches 0 and 7 in the directory, the scan marks
  batch 0 and then raises KeyError for the id 7.
\<close>

theorem match_batch_results_stale_counterexample:
  "match_batch_results ''run''
     [(0, \<lparr>indices = (0, 9), processed = False\<rparr>),
      (1, \<lparr>indices = (10, 19), processed = False\<rparr>),
      (2, \<lparr>indices = (20, 24), processed = False\<rparr>)]
     ''./results/'' [''run_0.json'', ''run_7.json'']
   = ([(0, \<lparr>indices = (0, 9), processed = True\<rparr>),
       (1, \<lparr>indices = (10, 19), processed = False\<rparr>),
       (2, \<lparr>indices = (20, 24), processed = False\<rparr>)], Some KeyError)"
  by code_simp

section \<open>The processed flags only grow\<close>

lemma frame_refl: "frame s s"
  by (simp add: frame_def)

lemma frame_trans: "frame s s1 \<Longrightarrow> frame s1 s2 \<Longrightarrow> frame s s2"
  by (simp add: frame_def)

lemma frame_wait_timeout: "frame s (wait_timeout w s)"
  by (simp add: frame_def wait_timeout_def)

lemma frame_query_gpt: "frame s (fst (query_gpt gpt d q s))"
  by (simp add: frame_def query_gpt_def Let_def)

lemma frame_classify_loop:
  "frame s (fst (classify_loop gpt d w l t i rs acc s))"
proof (induction rs arbitrary: i acc s)
  case Nil
  then show ?case by (simp add: frame_refl)
next
  case (Cons r rs)
  obtain s1 res where q: "query_gpt gpt d r s = (s1, res)" by (cases "query_gpt gpt d r s")
  have f1: "frame s s1" using frame_query_gpt [of s gpt d r] q by simp
  show ?case
  proof (cases res)
    case (Inl e)
    then show ?thesis using q f1 by simp
  next
    case (Inr result)
    show ?thesis
    proof (cases "classify_response r result")
      case (Inl e)
      then show ?thesis using q Inr f1 by simp
    next
      case rec: (Inr x)
      let ?s2 = "if i < t - 1 then wait_timeout w s1 else s1"
      have f2: "frame s ?s2"
        using f1 frame_wait_timeout [of s1 w] by (auto intro: frame_trans)
      have "frame ?s2 (fst (classify_loop gpt d w l t (i + 1) rs (AList.update i x acc) ?s2))"
        by (rule Cons.IH)
      then have "frame s (fst (classify_loop gpt d w l t (i + 1) rs (AList.update i x acc) ?s2))"
        using f2 by (rule frame_trans [rotated])
      then show ?thesis using q Inr rec f1 by simp
    qed
  qed
qed

lemma frame_classify_lsr_remarks:
  "frame s (fst (classify_lsr_remarks gpt rs d w st l s))"
  by (simp add: classify_lsr_remarks_def Let_def frame_classify_loop)

lemma frame_attempt_batch: "frame s (fst (attempt_batch cfg gpt rs s))"
proof -
  let ?c = "classify_lsr_remarks gpt rs (impact_defs cfg) (WAIT_TIME cfg) 0 0"
  obtain s1 res where c: "?c s = (s1, res)" by (cases "?c s")
  have f1: "frame s s1" using frame_classify_lsr_remarks [of s gpt rs "impact_defs cfg" "WAIT_TIME cfg" 0 0] c by simp
  show ?thesis
  proof (cases res)
    case (Inr x)
    then show ?thesis using c f1 by (simp add: attempt_batch_def)
  next
    case (Inl e)
    have "frame s1 (wait_timeout 10 s1)" by (rule frame_wait_timeout)
    moreover have "frame (wait_timeout 10 s1) (fst (?c (wait_timeout 10 s1)))"
      by (rule frame_classify_lsr_remarks)
    ultimately have "frame s (fst (?c (wait_timeout 10 s1)))"
      using f1 by (blast intro: frame_trans)
    then show ?thesis using c Inl f1 by (simp add: attempt_batch_def)
  qed
qed

lemma processed_ids_update:
  "processed_ids p \<subseteq> processed_ids (AList.update k (b\<lparr>processed := True\<rparr>) p)"
  by (auto simp: processed_ids_def update_conv')

lemma keys_update_present:
  "map_of p k = Some b \<Longrightarrow> map fst (AList.update k v p) = map fst p"
  by (force simp: update_keys dest: map_of_SomeD)

lemma process_batch_monotone:
  "processed_ids (batches s) \<subseteq> processed_ids (batches (fst (process_batch cfg gpt k s)))
   \<and> map fst (batches (fst (process_batch cfg gpt k s))) = map fst (batches s)"
proof (cases "map_of (batches s) k")
  case None
  then show ?thesis by (simp add: process_batch_def)
next
  case (Some b)
  show ?thesis
  proof (cases "processed b")
    case True
    then show ?thesis using Some by (simp add: process_batch_def)
  next
    case False
    let ?cur = "py_slice (remarks cfg) (fst (indices b)) (snd (indices b) + 1)"
    obtain s1 res where a: "attempt_batch cfg gpt ?cur s = (s1, res)"
      by (cases "attempt_batch cfg gpt ?cur s")
    have f: "batches s1 = batches s"
      using frame_attempt_batch [of s cfg gpt ?cur] a by (simp add: frame_def)
    show ?thesis
    proof (cases res)
      case (Inl e)
      then show ?thesis using Some False a f by (simp add: process_batch_def Let_def)
    next
      case (Inr results)
      then show ?thesis
        using Some False a f processed_ids_update [of "batches s" k b]
        by (simp add: process_batch_def Let_def complete_batch_def keys_update_present)
    qed
  qed
qed

lemma driver_loop_monotone:
  "processed_ids (batches s) \<subseteq> processed_ids (batches (fst (driver_loop cfg gpt ks s)))
   \<and> map fst (batches (fst (driver_loop cfg gpt ks s))) = map fst (batches s)"
proof (induction ks arbitrary: s)
  case Nil
  then show ?case by simp
next
  case (Cons k ks)
  obtain s1 r where p: "process_batch cfg gpt k s = (s1, r)" by (cases "process_batch cfg gpt k s")
  have m1: "processed_ids (batches s) \<subseteq> processed_ids (batches s1)"
    and k1: "map fst (batches s1) = map fst (batches s)"
    using process_batch_monotone [of s cfg gpt k] p by simp_all
  show ?case
  proof (cases r)
    case (Some e)
    then show ?thesis using p m1 k1 by simp
  next
    case None
    show ?thesis
    proof (cases "MAX_BATCHES cfg \<noteq> 0 \<and> k = MAX_BATCHES cfg")
      case True
      then show ?thesis using p None m1 k1 by simp
    next
      case False
      have "processed_ids (batches s1) \<subseteq> processed_ids (batches (fst (driver_loop cfg gpt ks s1)))
           \<and> map fst (batches (fst (driver_loop cfg gpt ks s1))) = map fst (batches s1)"
        by (rule Cons.IH)
      then show ?thesis using p None False m1 k1 by auto
    qed
  qed
qed

lemma mark_files_monotone:
  "processed_ids p \<subseteq> processed_ids (fst (mark_files fs p))
   \<and> map fst (fst (mark_files fs p)) = map fst p"
proof (induction fs arbitrary: p)
  case Nil
  then show ?case by simp
next
  case (Cons f fs)
  show ?case
  proof (cases "py_int (file_batch_id f)")
    case (Inl e)
    then show ?thesis by simp
  next
    case (Inr k)
    show ?thesis
    proof (cases "map_of p k")
      case None
      then show ?thesis using Inr by simp
    next
      case (Some b)
      let ?p = "AList.update k (b\<lparr>processed := True\<rparr>) p"
      have "processed_ids ?p \<subseteq> processed_ids (fst (mark_files fs ?p))
           \<and> map fst (fst (mark_files fs ?p)) = map fst ?p"
        by (rule Cons.IH)
      then show ?thesis
        using Inr Some processed_ids_update [of p k b] keys_update_present [OF Some]
        by auto
    qed
  qed
qed

text \<open>
  Claim C10. Neither the checkpoint scanner nor the driver sets a processed flag back:
  every batch id that is processed before \<open>match_batch_results\<close>, before one pass
  of the loop body, or before the whole loop, is processed after it, whether the
  operation returns or raises; and the ids of the plan stay the same. So the set of
  processed ids only grows through a run.
\<close>

theorem processed_flags_monotone:
  "processed_ids p \<subseteq> processed_ids (fst (match_batch_results uuid p path listing))
   \<and> map fst (fst (match_batch_results uuid p path listing)) = map fst p
   \<and> processed_ids (batches s) \<subseteq> processed_ids (batches (fst (process_batch cfg gpt k s)))
   \<and> processed_ids (batches s) \<subseteq> processed_ids (batches (fst (run_driver cfg gpt s)))
   \<and> map fst (batches (fst (run_driver cfg gpt s))) = map fst (batches s)"
  using mark_files_monotone process_batch_monotone [of s cfg gpt k]
    driver_loop_monotone [of s cfg gpt "map fst (batches s)"]
  by (simp add: match_batch_results_def Let_def run_driver_def)

section \<open>The trace of a run\<close>

lemma classify_response_no_remark:
  "classify_response q NO_REMARK =
     Inr (q, [(''MINOR'', 0), (''MODERATE'', 0), (''SERIOUS'', 0), (''SEVERE'', 0),
              (''CATASTROPHIC'', 0)], 0, ''NO REMARK FOR THIS LSR!'')"
  by code_simp

lemma query_gpt_answers:
  assumes "always_answers gpt"
  shows "\<exists>s1 r x. query_gpt gpt d q s = (s1, Inr r) \<and> classify_response q r = Inr x"
proof (cases "q \<noteq> [] \<and> q \<noteq> '' ''")
  case True
  obtain r x where "gpt (api_calls s) d q = Inr r" "classify_response q r = Inr x"
    using assms unfolding always_answers_def by blast
  then have "query_gpt gpt d q s
        = (s\<lparr>trace := trace s @ [Query q], api_calls := api_calls s + 1\<rparr>, Inr r)
      \<and> classify_response q r = Inr x"
    using True by (simp add: query_gpt_def Let_def)
  then show ?thesis by blast
next
  case False
  then have "query_gpt gpt d q s = (s\<lparr>trace := trace s @ [Query q]\<rparr>, Inr NO_REMARK)"
    by (auto simp: query_gpt_def Let_def)
  then show ?thesis using classify_response_no_remark [of q] by blast
qed

lemma classify_loop_trace:
  "classify_loop gpt d w 0 t i rs acc s = (s', Inr res) \<Longrightarrow> t = i + int (length rs) \<Longrightarrow>
   trace s' = trace s @ batch_events w rs"
proof (induction rs arbitrary: i acc s)
  case Nil
  then show ?case by simp
next
  case (Cons r rs)
  obtain s1 qres where q: "query_gpt gpt d r s = (s1, qres)" by (cases "query_gpt gpt d r s")
  have t1: "trace s1 = trace s @ [Query r]"
    using q by (auto simp: query_gpt_def Let_def split: if_splits)
  from Cons.prems(1) q obtain result where qr: "qres = Inr result"
    by (cases qres) auto
  from Cons.prems(1) q qr obtain x where x: "classify_response r result = Inr x"
    by (cases "classify_response r result") auto
  let ?s2 = "if i < t - 1 then wait_timeout w s1 else s1"
  have rec: "classify_loop gpt d w 0 t (i + 1) rs (AList.update i x acc) ?s2 = (s', Inr res)"
    using Cons.prems(1) q qr x by simp
  have t': "t = (i + 1) + int (length rs)" using Cons.prems(2) by simp
  have IH: "trace s' = trace ?s2 @ batch_events w rs"
    using Cons.IH [OF rec t'] .
  show ?case
  proof (cases rs)
    case Nil
    then have "\<not> i < t - 1" using Cons.prems(2) by simp
    then show ?thesis using IH t1 Nil by simp
  next
    case (Cons r' rs')
    then have "i < t - 1" using Cons.prems(2) by simp
    then show ?thesis using IH t1 Cons by (simp add: wait_timeout_def)
  qed
qed

lemma classify_loop_answers:
  assumes "always_answers gpt"
  shows "\<exists>s' res. classify_loop gpt d w 0 t i rs acc s = (s', Inr res)"
proof (induction rs arbitrary: i acc s)
  case Nil
  then show ?case by simp
next
  case (Cons r rs)
  obtain s1 res x where q: "query_gpt gpt d r s = (s1, Inr res)"
    and x: "classify_response r res = Inr x"
    using query_gpt_answers [OF assms, of d r s] by blast
  let ?s2 = "if i < t - 1 then wait_timeout w s1 else s1"
  obtain s' res' where
    "classify_loop gpt d w 0 t (i + 1) rs (AList.update i x acc) ?s2 = (s', Inr res')"
    using Cons.IH by blast
  then have "classify_loop gpt d w 0 t i (r # rs) acc s = (s', Inr res')"
    using q x by simp
  then show ?case by blast
qed


lemma classify_lsr_remarks_trace:
  "classify_lsr_remarks gpt rs d w 0 0 s = (s', Inr res) \<Longrightarrow> trace s' = trace s @ batch_events w rs"
  using classify_loop_trace [of gpt d w "int (length rs)" 0 rs "[]" s s' res]
  by (simp add: classify_lsr_remarks_def)

lemma classify_lsr_remarks_answers:
  "always_answers gpt \<Longrightarrow> \<exists>s' res. classify_lsr_remarks gpt rs d w 0 0 s = (s', Inr res)"
  using classify_loop_answers [of gpt d w "int (length rs)" 0 rs "[]" s]
  by (simp add: classify_lsr_remarks_def)

lemma attempt_batch_answers:
  assumes "always_answers gpt"
  shows "\<exists>s1 res. attempt_batch cfg gpt rs s = (s1, Inr res)
           \<and> trace s1 = trace s @ batch_events (WAIT_TIME cfg) rs \<and> frame s s1"
proof -
  obtain s1 res where c: "classify_lsr_remarks gpt rs (impact_defs cfg) (WAIT_TIME cfg) 0 0 s
      = (s1, Inr res)"
    using classify_lsr_remarks_answers [OF assms] by blast
  have "frame s s1"
    using frame_classify_lsr_remarks [of s gpt rs "impact_defs cfg" "WAIT_TIME cfg" 0 0] c by simp
  moreover have "trace s1 = trace s @ batch_events (WAIT_TIME cfg) rs"
    using classify_lsr_remarks_trace [OF c] .
  moreover have "attempt_batch cfg gpt rs s = (s1, Inr res)"
    using c by (simp add: attempt_batch_def)
  ultimately show ?thesis by blast
qed

lemma process_batch_answers:
  assumes "always_answers gpt" and "map_of (batches s) k = Some b"
  shows "\<exists>s1. process_batch cfg gpt k s = (s1, None)
           \<and> trace s1 = trace s @ batch_trace cfg (batches s) k
           \<and> batches s1 = (if processed b then batches s
                           else AList.update k (b\<lparr>processed := True\<rparr>) (batches s))"
proof (cases "processed b")
  case True
  then show ?thesis using assms(2) by (simp add: process_batch_def batch_trace_def)
next
  case False
  obtain s1 res where a: "attempt_batch cfg gpt (batch_remarks cfg b) s = (s1, Inr res)"
    and t: "trace s1 = trace s @ batch_events (WAIT_TIME cfg) (batch_remarks cfg b)"
    and f: "frame s s1"
    using attempt_batch_answers [OF assms(1)] by blast
  have "process_batch cfg gpt k s = (complete_batch cfg k b res s1, None)"
    using assms(2) False a by (simp add: process_batch_def batch_remarks_def)
  moreover have "trace (complete_batch cfg k b res s1) = trace s @ batch_trace cfg (batches s) k"
    using assms(2) False t by (simp add: complete_batch_def batch_trace_def batch_path_def)
  moreover have "batches (complete_batch cfg k b res s1)
      = AList.update k (b\<lparr>processed := True\<rparr>) (batches s)"
    using f by (simp add: complete_batch_def frame_def)
  ultimately show ?thesis using False by simp
qed

lemma batch_trace_other:
  "k' \<noteq> k \<Longrightarrow> batch_trace cfg (AList.update k v p) k' = batch_trace cfg p k'"
  by (simp add: batch_trace_def update_conv')

lemma driver_loop_answers:
  assumes "always_answers gpt" and "MAX_BATCHES cfg = 0"
  shows "distinct ks \<Longrightarrow> set ks \<subseteq> fst ` set (batches s) \<Longrightarrow>
         \<exists>s'. driver_loop cfg gpt ks s = (s', None)
           \<and> trace s' = trace s @ concat (map (batch_trace cfg (batches s)) ks)"
proof (induction ks arbitrary: s)
  case Nil
  then show ?case by simp
next
  case (Cons k ks)
  from Cons.prems(2) obtain b where b: "map_of (batches s) k = Some b"
    by (cases "map_of (batches s) k") (auto simp: map_of_eq_None_iff)
  obtain s1 where p: "process_batch cfg gpt k s = (s1, None)"
    and t: "trace s1 = trace s @ batch_trace cfg (batches s) k"
    and bs: "batches s1 = (if processed b then batches s
                           else AList.update k (b\<lparr>processed := True\<rparr>) (batches s))"
    using process_batch_answers [OF assms(1) b] by blast
  have keys: "map fst (batches s1) = map fst (batches s)"
    using bs keys_update_present [OF b] by simp
  have d: "distinct ks" using Cons.prems(1) by simp
  have sub: "set ks \<subseteq> fst ` set (batches s1)"
    using Cons.prems(2) keys by (metis insert_subset list.simps(15) set_map)
  obtain s' where l: "driver_loop cfg gpt ks s1 = (s', None)"
    and t': "trace s' = trace s1 @ concat (map (batch_trace cfg (batches s1)) ks)"
    using Cons.IH [OF d sub] by blast
  have m: "map (batch_trace cfg (batches s1)) ks = map (batch_trace cfg (batches s)) ks"
  proof (rule map_cong [OF refl])
    fix k' assume "k' \<in> set ks"
    then have "k' \<noteq> k" using Cons.prems(1) by auto
    then show "batch_trace cfg (batches s1) k' = batch_trace cfg (batches s) k'"
      using bs by (simp add: batch_trace_other)
  qed
  have "trace s' = trace s @ concat (map (batch_trace cfg (batches s)) (k # ks))"
    unfolding t' m t by simp
  moreover have "driver_loop cfg gpt (k # ks) s = (s', None)"
    using p l assms(2) by simp
  ultimately show ?case by blast
qed

lemma run_driver_answers:
  assumes "always_answers gpt" and "MAX_BATCHES cfg = 0"
    and "distinct (map fst (batches s))"
  shows "\<exists>s'. run_driver cfg gpt s = (s', None)
           \<and> trace s' = trace s @ concat (map (batch_trace cfg (batches s)) (map fst (batches s)))"
  unfolding run_driver_def
  using driver_loop_answers [OF assms(1,2) assms(3), of s] by simp


lemma classify_loop_events:
  "\<exists>t. trace (fst (classify_loop gpt d w l tot i rs acc s)) = trace s @ t
       \<and> (\<forall>e \<in> set t. classify_event rs e)"
proof (induction rs arbitrary: i acc s)
  case Nil
  then show ?case by simp
next
  case (Cons r rs)
  obtain s1 qres where q: "query_gpt gpt d r s = (s1, qres)" by (cases "query_gpt gpt d r s")
  have t1: "trace s1 = trace s @ [Query r]"
    using q by (auto simp: query_gpt_def Let_def split: if_splits)
  have here: "\<exists>t. trace s1 = trace s @ t \<and> (\<forall>e \<in> set t. classify_event (r # rs) e)"
    using t1 by (simp add: classify_event_def)
  show ?case
  proof (cases qres)
    case (Inl e)
    then show ?thesis using q here by simp
  next
    case (Inr result)
    show ?thesis
    proof (cases "classify_response r result")
      case (Inl e)
      then show ?thesis using q Inr here by simp
    next
      case rec: (Inr x)
      show ?thesis
      proof (cases "l \<noteq> 0 \<and> i = l - 1")
        case True
        then show ?thesis using q Inr rec here by simp
      next
        case False
        let ?s2 = "if i < tot - 1 then wait_timeout w s1 else s1"
        obtain t where t: "trace (fst (classify_loop gpt d w l tot (i + 1) rs (AList.update i x acc) ?s2))
            = trace ?s2 @ t" and c: "\<forall>e \<in> set t. classify_event rs e"
          using Cons.IH [of "i + 1" "AList.update i x acc" ?s2] by blast
        have c': "\<forall>e \<in> set t. classify_event (r # rs) e"
          using c by (auto simp: classify_event_def split: event.splits)
        have "\<exists>u. trace ?s2 = trace s @ u \<and> (\<forall>e \<in> set u. classify_event (r # rs) e)"
          using t1 by (auto simp: wait_timeout_def classify_event_def)
        then obtain u where u: "trace ?s2 = trace s @ u"
          and cu: "\<forall>e \<in> set u. classify_event (r # rs) e" by blast
        have step: "classify_loop gpt d w l tot i (r # rs) acc s
            = classify_loop gpt d w l tot (i + 1) rs (AList.update i x acc) ?s2"
          using q Inr rec False by auto
        have "trace (fst (classify_loop gpt d w l tot i (r # rs) acc s)) = trace s @ (u @ t)"
          unfolding step t u by simp
        moreover have "\<forall>e \<in> set (u @ t). classify_event (r # rs) e"
          using c' cu by auto
        ultimately show ?thesis by blast
      qed
    qed
  qed
qed

lemma py_slice_subset: "set (py_slice xs i j) \<subseteq> set xs"
  unfolding py_slice_def Let_def
  by (meson set_drop_subset set_take_subset subset_trans)

lemma classify_lsr_remarks_events:
  "\<exists>t. trace (fst (classify_lsr_remarks gpt rs d w st l s)) = trace s @ t
       \<and> (\<forall>e \<in> set t. classify_event rs e)"
proof -
  let ?rs = "if st \<noteq> 0 then py_slice rs st (int (length rs)) else rs"
  obtain t where t: "trace (fst (classify_loop gpt d w l (int (length ?rs)) 0 ?rs [] s)) = trace s @ t"
    and c: "\<forall>e \<in> set t. classify_event ?rs e"
    using classify_loop_events by blast
  have "set ?rs \<subseteq> set rs" using py_slice_subset [of rs st "int (length rs)"] by auto
  then have "\<forall>e \<in> set t. classify_event rs e"
    using c by (auto simp: classify_event_def split: event.splits)
  then show ?thesis using t by (auto simp: classify_lsr_remarks_def Let_def)
qed

lemma attempt_batch_events:
  "\<exists>t. trace (fst (attempt_batch cfg gpt rs s)) = trace s @ t
       \<and> (\<forall>e \<in> set t. classify_event rs e)"
proof -
  let ?c = "classify_lsr_remarks gpt rs (impact_defs cfg) (WAIT_TIME cfg) 0 0"
  obtain s1 res where c: "?c s = (s1, res)" by (cases "?c s")
  obtain t where t: "trace s1 = trace s @ t" and ct: "\<forall>e \<in> set t. classify_event rs e"
    using classify_lsr_remarks_events [of gpt rs "impact_defs cfg" "WAIT_TIME cfg" 0 0 s] c
    by auto
  show ?thesis
  proof (cases "\<exists>e. res = Inl e \<and> caught e")
    case False
    then have "attempt_batch cfg gpt rs s = (s1, res)"
      using c by (cases res) (auto simp: attempt_batch_def)
    then show ?thesis using t ct by auto
  next
    case True
    then have a: "attempt_batch cfg gpt rs s = ?c (wait_timeout 10 s1)"
      using c by (auto simp: attempt_batch_def)
    obtain u where u: "trace (fst (?c (wait_timeout 10 s1))) = trace (wait_timeout 10 s1) @ u"
      and cu: "\<forall>e \<in> set u. classify_event rs e"
      using classify_lsr_remarks_events by blast
    have "trace (fst (attempt_batch cfg gpt rs s)) = trace s @ (t @ Wait 10 # u)"
      using a u t by (simp add: wait_timeout_def)
    moreover have "\<forall>e \<in> set (t @ Wait 10 # u). classify_event rs e"
      using ct cu by (auto simp: classify_event_def)
    ultimately show ?thesis by blast
  qed
qed

lemma projections_append:
  "writes (t @ u) = writes t @ writes u" "skips (t @ u) = skips t @ skips u"
  "queries (t @ u) = queries t @ queries u"
  by (simp_all add: writes_def skips_def queries_def)

lemma projections_classify:
  assumes "\<forall>e \<in> set t. classify_event rs e"
  shows "writes t = []" and "skips t = []" and "set (queries t) \<subseteq> set rs"
  using assms
  by (induction t; auto simp: writes_def skips_def queries_def classify_event_def
      split: event.splits)+


lemma small_plan_defined: "define_batches 5 2 = Inr small_plan"
  by code_simp

lemma empty_answers_always: "always_answers empty_answers"
proof -
  have "classify_response q ''{}'' =
      Inr (q, [(''MINOR'', 0), (''MODERATE'', 0), (''SERIOUS'', 0), (''SEVERE'', 0),
               (''CATASTROPHIC'', 0)], 0, [])" for q
    by code_simp
  then show ?thesis unfolding always_answers_def empty_answers_def by blast
qed

text \<open>
  The pause of the configured duration follows every item of a batch but the last item
  of that batch: a call of \<open>classify_lsr_remarks\<close> that returns has added to the trace
  the queries of its remarks with exactly one pause between two consecutive ones and
  none after the last. With a service that always answers, the run returns and its
  trace is, batch after batch, these events followed by the writing of the artifact (or
  the skip of a processed batch).
\<close>

lemma trace_of_answered_run:
  assumes "always_answers gpt" and "MAX_BATCHES cfg = 0"
    and "distinct (map fst (batches s))"
  shows "(\<exists>s'. run_driver cfg gpt s = (s', None)
            \<and> trace s' = trace s
                 @ concat (map (batch_trace cfg (batches s)) (map fst (batches s))))
       \<and> (\<forall>rs s0 s1 res.
             classify_lsr_remarks gpt rs (impact_defs cfg) (WAIT_TIME cfg) 0 0 s0
               = (s1, Inr res)
             \<longrightarrow> trace s1 = trace s0 @ batch_events (WAIT_TIME cfg) rs)"
  using run_driver_answers [OF assms] classify_lsr_remarks_trace by blast

text \<open>
  Two batches that follow each other in the plan, both to be processed, the first not
  empty: whatever the service and the state, when the first batch has been classified
  and the classification of the second starts, the trace goes from the last call of
  the first batch to the writing of its artifact and to the first call of the second
  batch. No pause is between the two calls.
\<close>

lemma no_pause_after_batch:
  assumes "map_of (batches s) k = Some b" and "\<not> processed b"
    and "process_batch cfg gpt k s = (s1, None)"
    and "batch_remarks cfg b \<noteq> []"
  shows "\<exists>t. trace s1 = trace s @ t @ [Query (last (batch_remarks cfg b)),
                                         Write (batch_path cfg k)]"
proof -
  let ?cur = "batch_remarks cfg b"
  obtain s0 res where a: "attempt_batch cfg gpt ?cur s = (s0, res)"
    by (cases "attempt_batch cfg gpt ?cur s")
  obtain results where r: "res = Inr results" and s1: "s1 = complete_batch cfg k b results s0"
    using assms a by (cases res) (auto simp: process_batch_def batch_remarks_def)
  have ev: "\<exists>u. batch_events w rs = u @ [Query (last rs)]" if "rs \<noteq> []" for w rs
    using that
  proof (induction w rs rule: batch_events.induct)
    case (3 w r r' rs)
    then obtain u where "batch_events w (r' # rs) = u @ [Query (last (r' # rs))]" by auto
    then show ?case by (intro exI [of _ "Query r # Wait w # u"]) simp
  qed simp_all
  obtain u where u: "batch_events (WAIT_TIME cfg) ?cur = u @ [Query (last ?cur)]"
    using ev [OF assms(4)] by blast
  have "\<exists>t. trace s0 = trace s @ t @ batch_events (WAIT_TIME cfg) ?cur"
  proof (cases "classify_lsr_remarks gpt ?cur (impact_defs cfg) (WAIT_TIME cfg) 0 0 s")
    case (Pair sa ra)
    show ?thesis
    proof (cases ra)
      case (Inr x)
      then have "s0 = sa" using a r Pair by (simp add: attempt_batch_def)
      then have "trace s0 = trace s @ batch_events (WAIT_TIME cfg) ?cur"
        using classify_lsr_remarks_trace Pair Inr by blast
      then show ?thesis by simp
    next
      case (Inl e)
      then have c: "caught e" and
        b2: "classify_lsr_remarks gpt ?cur (impact_defs cfg) (WAIT_TIME cfg) 0 0
               (wait_timeout 10 sa) = (s0, Inr results)"
        using a r Pair by (auto simp: attempt_batch_def split: if_splits)
      have "trace s0 = trace (wait_timeout 10 sa) @ batch_events (WAIT_TIME cfg) ?cur"
        using classify_lsr_remarks_trace b2 by blast
      moreover obtain t0 where "trace sa = trace s @ t0"
        using classify_lsr_remarks_events [of gpt ?cur "impact_defs cfg" "WAIT_TIME cfg" 0 0 s] Pair
        by auto
      ultimately have "trace s0 = trace s @ (t0 @ [Wait 10]) @ batch_events (WAIT_TIME cfg) ?cur"
        by (simp add: wait_timeout_def)
      then show ?thesis by blast
    qed
  qed
  then obtain t where "trace s0 = trace s @ t @ u @ [Query (last ?cur)]"
    using u by auto
  then have "trace s1 = trace s @ (t @ u) @ [Query (last ?cur), Write (batch_path cfg k)]"
    using s1 by (simp add: complete_batch_def batch_path_def)
  then show ?thesis by blast
qed

lemma first_call_of_batch:
  assumes "map_of (batches s) k = Some b" and "\<not> processed b"
    and "batch_remarks cfg b \<noteq> []"
  shows "\<exists>t. trace (fst (process_batch cfg gpt k s))
              = trace s @ Query (hd (batch_remarks cfg b)) # t"
proof -
  let ?cur = "batch_remarks cfg b"
  obtain r rs where rs: "?cur = r # rs" using assms(3) by (cases ?cur) auto
  have q: "\<exists>t. trace (fst (query_gpt gpt d r s0)) = trace s0 @ Query r # t" for d s0
    by (simp add: query_gpt_def Let_def)
  have loop_mono: "\<exists>t. trace (fst (classify_loop gpt d w l n i xs acc s0)) = trace s0 @ t"
    for d w l n i xs acc s0
    using classify_loop_events [of gpt d w l n i xs acc s0] by blast
  have first: "\<exists>t. trace (fst (classify_lsr_remarks gpt (r # rs) d w 0 0 s0))
      = trace s0 @ Query r # t" for d w s0
  proof (cases "query_gpt gpt d r s0")
    case (Pair sa ra)
    have sa: "trace sa = trace s0 @ [Query r]"
      using Pair by (auto simp: query_gpt_def Let_def split: if_splits)
    show ?thesis
    proof (cases ra)
      case (Inl e)
      then show ?thesis using Pair sa by (simp add: classify_lsr_remarks_def)
    next
      case (Inr result)
      show ?thesis
      proof (cases "classify_response r result")
        case (Inl e)
        then show ?thesis using Pair Inr sa by (simp add: classify_lsr_remarks_def)
      next
        case (Inr rec)
        let ?s2 = "if 0 < int (length (r # rs)) - 1 then wait_timeout w sa else sa"
        obtain t where t: "trace (fst (classify_loop gpt d w 0 (int (length (r # rs))) (0 + 1) rs
            (AList.update 0 rec []) ?s2)) = trace ?s2 @ t"
          using loop_mono by blast
        have "\<exists>t0. trace ?s2 = trace s0 @ Query r # t0"
          using sa by (simp add: wait_timeout_def)
        then obtain t0 where "trace ?s2 = trace s0 @ Query r # t0" by blast
        then show ?thesis
          using Pair \<open>ra = Inr result\<close> Inr t by (simp add: classify_lsr_remarks_def)
      qed
    qed
  qed
  obtain t1 where t1: "trace (fst (classify_lsr_remarks gpt ?cur (impact_defs cfg)
      (WAIT_TIME cfg) 0 0 s)) = trace s @ Query r # t1"
    using first [of "impact_defs cfg" "WAIT_TIME cfg" s] rs by auto
  have att: "\<exists>t. trace (fst (attempt_batch cfg gpt ?cur s)) = trace s @ Query r # t"
  proof (cases "classify_lsr_remarks gpt ?cur (impact_defs cfg) (WAIT_TIME cfg) 0 0 s")
    case (Pair sa ra)
    have sa: "trace sa = trace s @ Query r # t1" using t1 Pair by simp
    show ?thesis
    proof (cases ra)
      case (Inr x)
      then show ?thesis using Pair sa by (simp add: attempt_batch_def)
    next
      case (Inl e)
      show ?thesis
      proof (cases "caught e")
        case False
        then show ?thesis using Pair Inl sa by (simp add: attempt_batch_def)
      next
        case True
        obtain t2 where "trace (fst (classify_lsr_remarks gpt ?cur (impact_defs cfg)
            (WAIT_TIME cfg) 0 0 (wait_timeout 10 sa))) = trace (wait_timeout 10 sa) @ Query r # t2"
          using first [of "impact_defs cfg" "WAIT_TIME cfg" "wait_timeout 10 sa"] rs by auto
        then show ?thesis
          using Pair Inl True sa by (simp add: attempt_batch_def wait_timeout_def)
      qed
    qed
  qed
  then obtain t where t: "trace (fst (attempt_batch cfg gpt ?cur s)) = trace s @ Query r # t"
    by blast
  show ?thesis
  proof (cases "attempt_batch cfg gpt ?cur s")
    case (Pair s0 res)
    then have s0: "trace s0 = trace s @ Query r # t" using t by simp
    show ?thesis
    proof (cases res)
      case (Inl e)
      then show ?thesis
        using assms(1,2) Pair s0 rs by (simp add: process_batch_def batch_remarks_def)
    next
      case (Inr results)
      then have "trace (fst (process_batch cfg gpt k s))
          = trace s @ Query r # (t @ [Write (batch_path cfg k)])"
        using assms(1,2) Pair s0
        by (simp add: process_batch_def batch_remarks_def [symmetric] complete_batch_def
            batch_path_def)
      then show ?thesis using rs by auto
    qed
  qed
qed

text \<open>
  Claim C8. Five remarks in batches of two, a pause of 20 seconds, and a service that
  answers every call. The run returns, and its events are the ones listed: a pause
  follows the first item of each batch of two, but after the second and the fourth
  item, each the last of its batch and not of the run, the artifact is written and the
  call for the next batch follows at once. So the numbers of pauses between the five
  calls and their successors are 1, 0, 1, 0 (and 0 after the last), where the claim has
  one pause between every two consecutive calls of the run.
\<close>

theorem no_pause_between_batches:
  "run_driver small_run empty_answers (initial_state small_plan [])
     = (fst (run_driver small_run empty_answers (initial_state small_plan [])), None)
   \<and> trace (fst (run_driver small_run empty_answers (initial_state small_plan []))) =
     [Query ''a'', Wait 20, Query ''b'', Write ''./results/run_0.json'',
      Query ''c'', Wait 20, Query ''d'', Write ''./results/run_1.json'',
      Query ''e'', Write ''./results/run_2.json'']
   \<and> waits_after (trace (fst (run_driver small_run empty_answers
                                 (initial_state small_plan [])))) = [1, 0, 1, 0, 0]
   \<and> define_batches (int (length (remarks small_run))) (BATCH_SIZE small_run)
       = Inr small_plan
   \<and> WAIT_TIME small_run = 20"
  by code_simp

section \<open>Resuming a run\<close>

lemma process_batch_processed:
  "map_of (batches s) k = Some b \<Longrightarrow> processed b \<Longrightarrow>
   process_batch cfg gpt k s =
     (s\<lparr>batches_skipped := batches_skipped s + 1, trace := trace s @ [Skip k],
        processed_lsrs := None\<rparr>, None)"
  by (simp add: process_batch_def)

lemma process_batch_pending:
  assumes "map_of (batches s) k = Some b" and "\<not> processed b"
    and "process_batch cfg gpt k s = (s1, None)"
  shows "\<exists>t. trace s1 = trace s @ t @ [Write (batch_path cfg k)]
           \<and> (\<forall>e \<in> set t. classify_event (batch_remarks cfg b) e)"
    and "batches s1 = AList.update k (b\<lparr>processed := True\<rparr>) (batches s)"
    and "batches_processed s1 = batches_processed s + 1"
    and "batches_skipped s1 = batches_skipped s"
proof -
  let ?cur = "batch_remarks cfg b"
  obtain s0 res where a: "attempt_batch cfg gpt ?cur s = (s0, res)"
    by (cases "attempt_batch cfg gpt ?cur s")
  obtain results where r: "res = Inr results" and s1: "s1 = complete_batch cfg k b results s0"
    using assms a by (cases res) (auto simp: process_batch_def batch_remarks_def)
  have f: "frame s s0" using frame_attempt_batch [of s cfg gpt ?cur] a by simp
  obtain t where t: "trace s0 = trace s @ t" and c: "\<forall>e \<in> set t. classify_event ?cur e"
    using attempt_batch_events [of cfg gpt ?cur s] a by auto
  have "trace s1 = trace s @ t @ [Write (batch_path cfg k)]"
    using s1 t by (simp add: complete_batch_def batch_path_def)
  then show "\<exists>t. trace s1 = trace s @ t @ [Write (batch_path cfg k)]
           \<and> (\<forall>e \<in> set t. classify_event (batch_remarks cfg b) e)"
    using c by blast
  show "batches s1 = AList.update k (b\<lparr>processed := True\<rparr>) (batches s)"
    using s1 f by (simp add: complete_batch_def frame_def)
  show "batches_processed s1 = batches_processed s + 1"
    using s1 f by (simp add: complete_batch_def frame_def)
  show "batches_skipped s1 = batches_skipped s"
    using s1 f by (simp add: complete_batch_def frame_def)
qed

lemma is_processed_update_other:
  "k' \<noteq> k \<Longrightarrow> is_processed (AList.update k v p) k' = is_processed p k'"
  "k' \<noteq> k \<Longrightarrow> pending_remarks cfg (AList.update k v p) k' = pending_remarks cfg p k'"
  by (simp_all add: is_processed_def pending_remarks_def update_conv')

lemma is_processed_ids: "is_processed p k \<longleftrightarrow> k \<in> processed_ids p"
  by (auto simp: is_processed_def processed_ids_def split: option.splits)

lemma driver_loop_resume:
  assumes "MAX_BATCHES cfg = 0"
  shows "distinct ks \<Longrightarrow> set ks \<subseteq> fst ` set (batches s) \<Longrightarrow>
     driver_loop cfg gpt ks s = (s', None) \<Longrightarrow>
       writes (trace s') = writes (trace s)
         @ map (batch_path cfg) (filter (\<lambda>k. \<not> is_processed (batches s) k) ks)
     \<and> skips (trace s') = skips (trace s) @ filter (is_processed (batches s)) ks
     \<and> set (queries (trace s')) \<subseteq> set (queries (trace s))
         \<union> set (concat (map (pending_remarks cfg (batches s)) ks))
     \<and> set ks \<subseteq> processed_ids (batches s')
     \<and> batches_processed s' = batches_processed s
         + int (length (filter (\<lambda>k. \<not> is_processed (batches s) k) ks))
     \<and> batches_skipped s' = batches_skipped s
         + int (length (filter (is_processed (batches s)) ks))"
proof (induction ks arbitrary: s)
  case Nil
  then show ?case by simp
next
  case (Cons k ks)
  from Cons.prems(2) obtain b where b: "map_of (batches s) k = Some b"
    by (cases "map_of (batches s) k") (auto simp: map_of_eq_None_iff)
  obtain s1 r where p: "process_batch cfg gpt k s = (s1, r)"
    by (cases "process_batch cfg gpt k s")
  have r: "r = None" using Cons.prems(3) p by (cases r) auto
  have l: "driver_loop cfg gpt ks s1 = (s', None)"
    using Cons.prems(3) p r assms by simp
  have keys: "map fst (batches s1) = map fst (batches s)"
    using process_batch_monotone [of s cfg gpt k] p by simp
  have d: "distinct ks" using Cons.prems(1) by simp
  have sub: "set ks \<subseteq> fst ` set (batches s1)"
    using Cons.prems(2) keys by (metis insert_subset list.simps(15) set_map)
  note IH = Cons.IH [OF d sub l]
  have mono: "processed_ids (batches s1) \<subseteq> processed_ids (batches s')"
    using driver_loop_monotone [of s1 cfg gpt ks] l by simp
  show ?case
  proof (cases "processed b")
    case True
    have s1: "s1 = s\<lparr>batches_skipped := batches_skipped s + 1, trace := trace s @ [Skip k],
        processed_lsrs := None\<rparr>"
      using process_batch_processed [OF b True, of cfg gpt] p by simp
    have pk: "is_processed (batches s) k" using b True by (simp add: is_processed_def)
    have bs: "batches s1 = batches s" and bp: "batches_processed s1 = batches_processed s"
      and bk: "batches_skipped s1 = batches_skipped s + 1"
      by (simp_all add: s1)
    have w: "writes (trace s1) = writes (trace s)"
      and sk: "skips (trace s1) = skips (trace s) @ [k]"
      and qs: "queries (trace s1) = queries (trace s)"
      by (simp_all add: s1 projections_append) (simp_all add: writes_def skips_def queries_def)
    have pr: "pending_remarks cfg (batches s) k = []"
      using b True by (simp add: pending_remarks_def)
    have "k \<in> processed_ids (batches s1)"
      using bs pk by (simp add: is_processed_ids)
    then have kin: "k \<in> processed_ids (batches s')" using mono by auto
    show ?thesis
      using IH pk kin
      by (auto simp: bs bp bk w sk qs pr)
  next
    case False
    obtain t where t: "trace s1 = trace s @ t @ [Write (batch_path cfg k)]"
      and c: "\<forall>e \<in> set t. classify_event (batch_remarks cfg b) e"
      using process_batch_pending(1) [OF b False] p r by blast
    have bs: "batches s1 = AList.update k (b\<lparr>processed := True\<rparr>) (batches s)"
      and bp: "batches_processed s1 = batches_processed s + 1"
      and bk: "batches_skipped s1 = batches_skipped s"
      using process_batch_pending(2,3,4) [OF b False] p r by blast+
    have pk: "\<not> is_processed (batches s) k" using b False by (simp add: is_processed_def)
    have pr: "pending_remarks cfg (batches s) k = batch_remarks cfg b"
      using b False by (simp add: pending_remarks_def)
    have "k \<in> processed_ids (batches s1)"
      by (simp add: bs processed_ids_def update_conv')
    then have kin: "k \<in> processed_ids (batches s')" using mono by auto
    have ne: "\<And>k'. k' \<in> set ks \<Longrightarrow> k' \<noteq> k" using Cons.prems(1) by auto
    have other: "\<And>k'. k' \<in> set ks \<Longrightarrow> is_processed (batches s1) k' = is_processed (batches s) k'"
      "\<And>k'. k' \<in> set ks \<Longrightarrow> pending_remarks cfg (batches s1) k' = pending_remarks cfg (batches s) k'"
      unfolding bs by (simp_all add: is_processed_update_other ne)
    have f1: "filter (\<lambda>k. \<not> is_processed (batches s1) k) ks
        = filter (\<lambda>k. \<not> is_processed (batches s) k) ks"
      using other(1) by (intro filter_cong) auto
    have f2: "filter (is_processed (batches s1)) ks = filter (is_processed (batches s)) ks"
      using other(1) by (intro filter_cong) auto
    have f3: "map (pending_remarks cfg (batches s1)) ks = map (pending_remarks cfg (batches s)) ks"
      using other(2) by (intro map_cong) auto
    have w: "writes (trace s1) = writes (trace s) @ [batch_path cfg k]"
      and sk: "skips (trace s1) = skips (trace s)"
      and qs: "set (queries (trace s1)) \<subseteq> set (queries (trace s)) \<union> set (batch_remarks cfg b)"
      using projections_classify [OF c]
      by (auto simp: t projections_append writes_def skips_def queries_def)
    show ?thesis
      using IH pk kin qs
      by (auto simp: f1 f2 f3 w sk pr bp bk)
  qed
qed

lemma process_batch_pending_any:
  assumes "map_of (batches s) k = Some b" and "\<not> processed b"
    and "process_batch cfg gpt k s = (s1, r)"
  shows "\<exists>t. trace s1 = trace s @ t @ (if r = None then [Write (batch_path cfg k)] else [])
           \<and> (\<forall>e \<in> set t. classify_event (batch_remarks cfg b) e)"
proof -
  let ?cur = "batch_remarks cfg b"
  obtain s0 res where a: "attempt_batch cfg gpt ?cur s = (s0, res)"
    by (cases "attempt_batch cfg gpt ?cur s")
  obtain t where t: "trace s0 = trace s @ t" and c: "\<forall>e \<in> set t. classify_event ?cur e"
    using attempt_batch_events [of cfg gpt ?cur s] a by auto
  show ?thesis
  proof (cases res)
    case (Inl e)
    then have "s1 = s0" "r = Some e"
      using assms a by (auto simp: process_batch_def batch_remarks_def)
    then show ?thesis using t c by auto
  next
    case (Inr results)
    then have "s1 = complete_batch cfg k b results s0" "r = None"
      using assms a by (auto simp: process_batch_def batch_remarks_def)
    then have "trace s1 = trace s @ t @ (if r = None then [Write (batch_path cfg k)] else [])"
      using t by (simp add: complete_batch_def batch_path_def)
    then show ?thesis using c by blast
  qed
qed

lemma driver_loop_only_pending:
  "distinct ks \<Longrightarrow> set ks \<subseteq> fst ` set (batches s) \<Longrightarrow>
   \<exists>ws sk. prefix ws (filter (\<lambda>k. \<not> is_processed (batches s) k) ks)
     \<and> prefix sk (filter (is_processed (batches s)) ks)
     \<and> writes (trace (fst (driver_loop cfg gpt ks s)))
         = writes (trace s) @ map (batch_path cfg) ws
     \<and> skips (trace (fst (driver_loop cfg gpt ks s))) = skips (trace s) @ sk
     \<and> set (queries (trace (fst (driver_loop cfg gpt ks s))))
         \<subseteq> set (queries (trace s)) \<union> set (concat (map (pending_remarks cfg (batches s)) ks))"
proof (induction ks arbitrary: s)
  case Nil
  then show ?case by simp
next
  case (Cons k ks)
  from Cons.prems(2) obtain b where b: "map_of (batches s) k = Some b"
    by (cases "map_of (batches s) k") (auto simp: map_of_eq_None_iff)
  obtain s1 r where p: "process_batch cfg gpt k s = (s1, r)"
    by (cases "process_batch cfg gpt k s")
  have keys: "map fst (batches s1) = map fst (batches s)"
    using process_batch_monotone [of s cfg gpt k] p by simp
  have d: "distinct ks" using Cons.prems(1) by simp
  have sub: "set ks \<subseteq> fst ` set (batches s1)"
    using Cons.prems(2) keys by (metis insert_subset list.simps(15) set_map)
  have ne: "\<And>k'. k' \<in> set ks \<Longrightarrow> k' \<noteq> k" using Cons.prems(1) by auto
  have body: "\<exists>w1 k1. writes (trace s1) = writes (trace s) @ map (batch_path cfg) w1
      \<and> skips (trace s1) = skips (trace s) @ k1
      \<and> set (queries (trace s1)) \<subseteq> set (queries (trace s)) \<union> set (pending_remarks cfg (batches s) k)
      \<and> w1 = (if \<not> is_processed (batches s) k \<and> r = None then [k] else [])
      \<and> k1 = (if is_processed (batches s) k then [k] else [])"
  proof (cases "processed b")
    case True
    have s1: "s1 = s\<lparr>batches_skipped := batches_skipped s + 1, trace := trace s @ [Skip k],
        processed_lsrs := None\<rparr>"
      using process_batch_processed [OF b True, of cfg gpt] p by simp
    have pk: "is_processed (batches s) k" using b True by (simp add: is_processed_def)
    have "writes (trace s1) = writes (trace s)" "skips (trace s1) = skips (trace s) @ [k]"
      "queries (trace s1) = queries (trace s)"
      by (simp_all add: s1 projections_append) (simp_all add: writes_def skips_def queries_def)
    then show ?thesis using pk by auto
  next
    case False
    obtain t where t: "trace s1 = trace s @ t @ (if r = None then [Write (batch_path cfg k)] else [])"
      and c: "\<forall>e \<in> set t. classify_event (batch_remarks cfg b) e"
      using process_batch_pending_any [OF b False p] by blast
    have pk: "\<not> is_processed (batches s) k" using b False by (simp add: is_processed_def)
    have pr: "pending_remarks cfg (batches s) k = batch_remarks cfg b"
      using b False by (simp add: pending_remarks_def)
    have "writes (trace s1) = writes (trace s) @ (if r = None then [batch_path cfg k] else [])"
      and "skips (trace s1) = skips (trace s)"
      and "set (queries (trace s1)) \<subseteq> set (queries (trace s)) \<union> set (batch_remarks cfg b)"
      using projections_classify [OF c]
      by (auto simp: t projections_append writes_def skips_def queries_def)
    then show ?thesis using pk pr by auto
  qed
  then obtain w1 k1 where w1: "writes (trace s1) = writes (trace s) @ map (batch_path cfg) w1"
    and k1: "skips (trace s1) = skips (trace s) @ k1"
    and q1: "set (queries (trace s1)) \<subseteq> set (queries (trace s)) \<union> set (pending_remarks cfg (batches s) k)"
    and w1d: "w1 = (if \<not> is_processed (batches s) k \<and> r = None then [k] else [])"
    and k1d: "k1 = (if is_processed (batches s) k then [k] else [])"
    by blast
  have pw1: "prefix w1 (filter (\<lambda>k. \<not> is_processed (batches s) k) (k # ks))"
    and pk1: "prefix k1 (filter (is_processed (batches s)) (k # ks))"
    by (auto simp: w1d k1d)
  show ?case
  proof (cases "r = None \<and> \<not> (MAX_BATCHES cfg \<noteq> 0 \<and> k = MAX_BATCHES cfg)")
    case False
    then have "fst (driver_loop cfg gpt (k # ks) s) = s1"
      using p by (cases r) auto
    then show ?thesis using w1 k1 q1 pw1 pk1 by auto
  next
    case True
    then have step: "driver_loop cfg gpt (k # ks) s = driver_loop cfg gpt ks s1"
      using p by auto
    have bs: "batches s1 = (if processed b then batches s
        else AList.update k (b\<lparr>processed := True\<rparr>) (batches s))"
    proof (cases "processed b")
      case True
      then show ?thesis using process_batch_processed [OF b True, of cfg gpt] p by auto
    next
      case False
      then show ?thesis using process_batch_pending(2) [OF b False, of cfg gpt s1] p True by auto
    qed
    have other: "\<And>k'. k' \<in> set ks \<Longrightarrow> is_processed (batches s1) k' = is_processed (batches s) k'"
      "\<And>k'. k' \<in> set ks \<Longrightarrow> pending_remarks cfg (batches s1) k' = pending_remarks cfg (batches s) k'"
      unfolding bs by (simp_all add: is_processed_update_other ne)
    have f1: "filter (\<lambda>k. \<not> is_processed (batches s1) k) ks
        = filter (\<lambda>k. \<not> is_processed (batches s) k) ks"
      using other(1) by (intro filter_cong) auto
    have f2: "filter (is_processed (batches s1)) ks = filter (is_processed (batches s)) ks"
      using other(1) by (intro filter_cong) auto
    have f3: "map (pending_remarks cfg (batches s1)) ks = map (pending_remarks cfg (batches s)) ks"
      using other(2) by (intro map_cong) auto
    obtain ws sk where ws: "prefix ws (filter (\<lambda>k. \<not> is_processed (batches s) k) ks)"
      and sk: "prefix sk (filter (is_processed (batches s)) ks)"
      and w: "writes (trace (fst (driver_loop cfg gpt ks s1)))
         = writes (trace s1) @ map (batch_path cfg) ws"
      and s: "skips (trace (fst (driver_loop cfg gpt ks s1))) = skips (trace s1) @ sk"
      and q: "set (queries (trace (fst (driver_loop cfg gpt ks s1))))
         \<subseteq> set (queries (trace s1)) \<union> set (concat (map (pending_remarks cfg (batches s)) ks))"
      using Cons.IH [OF d sub, unfolded f1 f2 f3] by blast
    have "prefix (w1 @ ws) (filter (\<lambda>k. \<not> is_processed (batches s) k) (k # ks))"
      using ws True by (auto simp: w1d)
    moreover have "prefix (k1 @ sk) (filter (is_processed (batches s)) (k # ks))"
      using sk by (auto simp: k1d)
    moreover have "writes (trace (fst (driver_loop cfg gpt (k # ks) s)))
        = writes (trace s) @ map (batch_path cfg) (w1 @ ws)"
      unfolding step w w1 by simp
    moreover have "skips (trace (fst (driver_loop cfg gpt (k # ks) s)))
        = skips (trace s) @ (k1 @ sk)"
      unfolding step s k1 by simp
    moreover have "set (queries (trace (fst (driver_loop cfg gpt (k # ks) s))))
        \<subseteq> set (queries (trace s)) \<union> set (concat (map (pending_remarks cfg (batches s)) (k # ks)))"
      unfolding step using q q1 by auto
    ultimately show ?thesis by blast
  qed
qed

lemma run_driver_resume:
  assumes "MAX_BATCHES cfg = 0" and "distinct (map fst (batches s))"
    and "run_driver cfg gpt s = (s', None)"
  shows "writes (trace s') = writes (trace s)
           @ map (batch_path cfg)
               (filter (\<lambda>k. \<not> is_processed (batches s) k) (map fst (batches s)))
       \<and> skips (trace s') = skips (trace s)
           @ filter (is_processed (batches s)) (map fst (batches s))
       \<and> set (queries (trace s')) \<subseteq> set (queries (trace s))
           \<union> set (concat (map (pending_remarks cfg (batches s)) (map fst (batches s))))
       \<and> processed_ids (batches s') = fst ` set (batches s)
       \<and> batches_processed s' = batches_processed s
           + int (length (filter (\<lambda>k. \<not> is_processed (batches s) k) (map fst (batches s))))
       \<and> batches_skipped s' = batches_skipped s
           + int (length (filter (is_processed (batches s)) (map fst (batches s))))"
proof -
  have l: "driver_loop cfg gpt (map fst (batches s)) s = (s', None)"
    using assms(3) by (simp add: run_driver_def)
  have sub: "set (map fst (batches s)) \<subseteq> fst ` set (batches s)" by simp
  note R = driver_loop_resume [OF assms(1) assms(2) sub l]
  have keys: "map fst (batches s') = map fst (batches s)"
    using driver_loop_monotone [of s cfg gpt "map fst (batches s)"] l by simp
  have "processed_ids (batches s') \<subseteq> fst ` set (batches s')"
    by (force simp: processed_ids_def dest: map_of_SomeD)
  then have "processed_ids (batches s') \<subseteq> fst ` set (batches s)"
    using keys by (metis set_map)
  moreover have "fst ` set (batches s) \<subseteq> processed_ids (batches s')"
    using R by simp
  ultimately have all: "processed_ids (batches s') = fst ` set (batches s)" by blast
  show ?thesis
    using R all by blast
qed

section \<open>Transient failures\<close>

lemma classify_lsr_remarks_first:
  assumes "classify_lsr_remarks gpt rs d w 0 0 s = (s', Inl e)"
  shows "\<exists>t. trace s' = trace s @ Query (hd rs) # t"
proof (cases rs)
  case Nil
  then show ?thesis using assms by (simp add: classify_lsr_remarks_def)
next
  case (Cons r rs')
  obtain s1 qres where q: "query_gpt gpt d r s = (s1, qres)" by (cases "query_gpt gpt d r s")
  have t1: "trace s1 = trace s @ [Query r]"
    using q by (auto simp: query_gpt_def Let_def split: if_splits)
  let ?loop = "classify_loop gpt d w 0 (int (length rs)) 0 rs [] s"
  have l: "?loop = (s', Inl e)" using assms by (simp add: classify_lsr_remarks_def)
  show ?thesis
  proof (cases qres)
    case (Inl e')
    then have "s' = s1" using l q Cons by simp
    then show ?thesis using t1 Cons by simp
  next
    case (Inr result)
    show ?thesis
    proof (cases "classify_response r result")
      case (Inl e')
      then have "s' = s1" using l q Inr Cons by simp
      then show ?thesis using t1 Cons by simp
    next
      case rec: (Inr x)
      define s2 where "s2 = (if 0 < int (length rs) - 1 then wait_timeout w s1 else s1)"
      define x1 where "x1 = AList.update (0::int) x []"
      have step: "?loop = classify_loop gpt d w 0 (int (length rs)) 1 rs' x1 s2"
        using q Inr rec Cons by (simp add: s2_def x1_def)
      obtain t where "trace (fst (classify_loop gpt d w 0 (int (length rs)) 1 rs' x1 s2))
          = trace s2 @ t"
        using classify_loop_events [of gpt d w 0 "int (length rs)" 1 rs' x1 s2] by blast
      moreover have "fst (classify_loop gpt d w 0 (int (length rs)) 1 rs' x1 s2) = s'"
        using step l by (metis fst_conv)
      ultimately have "trace s' = trace s2 @ t" by simp
      moreover have "\<exists>u. trace s2 = trace s @ Query r # u"
        using t1 by (simp add: wait_timeout_def s2_def)
      ultimately show ?thesis using Cons by auto
    qed
  qed
qed

text \<open>
  Claim C2. Let the first attempt on an unprocessed batch raise an exception of the
  \<^verbatim>\<open>except\<close> clause (rate limit, service unavailable, API error, OSError). Then
  the driver waits the fixed ten seconds and classifies the whole batch once more, from
  its first remark. If this second attempt raises as well (anything), the exception
  leaves the loop body and the loop: the run ends with it, the plan and the results
  directory are as they were before the batch (the batch is still unprocessed, no
  artifact was written). If the second attempt returns, the batch is completed with its
  records.
\<close>

theorem second_failure_ends_run:
  assumes "map_of (batches s) k = Some b" and "\<not> processed b"
    and "classify_lsr_remarks gpt (batch_remarks cfg b) (impact_defs cfg) (WAIT_TIME cfg) 0 0 s
           = (s1, Inl e1)"
    and "caught e1"
  shows "attempt_batch cfg gpt (batch_remarks cfg b) s
           = classify_lsr_remarks gpt (batch_remarks cfg b) (impact_defs cfg) (WAIT_TIME cfg)
               0 0 (wait_timeout 10 s1)
       \<and> trace (wait_timeout 10 s1) = trace s1 @ [Wait 10]
       \<and> (\<forall>s2 e2.
             classify_lsr_remarks gpt (batch_remarks cfg b) (impact_defs cfg) (WAIT_TIME cfg)
               0 0 (wait_timeout 10 s1) = (s2, Inl e2)
             \<longrightarrow> process_batch cfg gpt k s = (s2, Some e2)
                 \<and> driver_loop cfg gpt (k # rest) s = (s2, Some e2)
                 \<and> batches s2 = batches s
                 \<and> results_dir s2 = results_dir s
                 \<and> writes (trace s2) = writes (trace s)
                 \<and> (\<exists>t. trace s2
                       = trace s1 @ [Wait 10, Query (hd (batch_remarks cfg b))] @ t))
       \<and> (\<forall>s2 res.
             classify_lsr_remarks gpt (batch_remarks cfg b) (impact_defs cfg) (WAIT_TIME cfg)
               0 0 (wait_timeout 10 s1) = (s2, Inr res)
             \<longrightarrow> process_batch cfg gpt k s = (complete_batch cfg k b res s2, None))"
proof -
  let ?cur = "batch_remarks cfg b"
  let ?c = "classify_lsr_remarks gpt ?cur (impact_defs cfg) (WAIT_TIME cfg) 0 0"
  have a: "attempt_batch cfg gpt ?cur s = ?c (wait_timeout 10 s1)"
    using assms(3,4) by (simp add: attempt_batch_def)
  have w: "trace (wait_timeout 10 s1) = trace s1 @ [Wait 10]"
    by (simp add: wait_timeout_def)
  have fatal: "process_batch cfg gpt k s = (s2, Some e2)
      \<and> driver_loop cfg gpt (k # rest) s = (s2, Some e2)
      \<and> batches s2 = batches s \<and> results_dir s2 = results_dir s
      \<and> writes (trace s2) = writes (trace s)
      \<and> (\<exists>t. trace s2 = trace s1 @ [Wait 10, Query (hd ?cur)] @ t)"
    if r: "?c (wait_timeout 10 s1) = (s2, Inl e2)" for s2 e2
  proof -
    have p: "process_batch cfg gpt k s = (s2, Some e2)"
      using assms(1,2) a r by (simp add: process_batch_def batch_remarks_def)
    then have l: "driver_loop cfg gpt (k # rest) s = (s2, Some e2)" by simp
    have f: "frame s s2"
      using frame_attempt_batch [of s cfg gpt ?cur] a r by simp
    obtain t where t: "trace s2 = trace s @ t" and c: "\<forall>e \<in> set t. classify_event ?cur e"
      using attempt_batch_events [of cfg gpt ?cur s] a r by auto
    have wr: "writes (trace s2) = writes (trace s)"
      using projections_classify(1) [OF c] by (simp add: t projections_append)
    obtain u where "trace s2 = trace (wait_timeout 10 s1) @ Query (hd ?cur) # u"
      using classify_lsr_remarks_first [OF r] by blast
    then have "trace s2 = trace s1 @ [Wait 10, Query (hd ?cur)] @ u"
      by (simp add: w)
    then show ?thesis using p l f wr by (auto simp: frame_def)
  qed
  have ok: "process_batch cfg gpt k s = (complete_batch cfg k b res s2, None)"
    if r: "?c (wait_timeout 10 s1) = (s2, Inr res)" for s2 res
    using assms(1,2) a r by (simp add: process_batch_def batch_remarks_def)
  show ?thesis using a w fatal ok by blast
qed


theorem second_failure_ends_run_witness:
  "map_of (batches (initial_state small_plan [])) 0
     = Some \<lparr>indices = (0, 1), processed = False\<rparr>
   \<and> \<not> processed \<lparr>indices = (0, 1), processed = False\<rparr>
   \<and> caught RateLimitError
   \<and> driver_loop small_run rate_limited [0, 1, 2] (initial_state small_plan [])
       = ((initial_state small_plan [])
            \<lparr>trace := [Query ''a'', Wait 10, Query ''a''], api_calls := 2\<rparr>,
          Some RateLimitError)"
proof -
  let ?s = "initial_state small_plan []"
  let ?b = "\<lparr>indices = (0, 1), processed = False\<rparr>"
  let ?s1 = "?s\<lparr>trace := [Query ''a''], api_calls := 1\<rparr>"
  let ?s2 = "?s\<lparr>trace := [Query ''a'', Wait 10, Query ''a''], api_calls := 2\<rparr>"
  have h1: "map_of (batches ?s) 0 = Some ?b"
    by (simp add: initial_state_def small_plan_def)
  have h2: "\<not> processed ?b" by simp
  have h3: "classify_lsr_remarks rate_limited (batch_remarks small_run ?b)
      (impact_defs small_run) (WAIT_TIME small_run) 0 0 ?s = (?s1, Inl RateLimitError)"
    by code_simp
  have h4: "caught RateLimitError" by (simp add: caught_def)
  have r: "classify_lsr_remarks rate_limited (batch_remarks small_run ?b)
      (impact_defs small_run) (WAIT_TIME small_run) 0 0 (wait_timeout 10 ?s1)
      = (?s2, Inl RateLimitError)"
    by code_simp
  show ?thesis
    using second_failure_ends_run [OF h1 h2 h3 h4, of "[1, 2]"] r h1 h2 h4 by blast
qed

section \<open>Consolidation of the artifacts of a complete run\<close>

lemma fill_row_filled:
  assumes "map_of pd ''MINOR'' = Some p1" "map_of pd ''MODERATE'' = Some p2"
    "map_of pd ''SERIOUS'' = Some p3" "map_of pd ''SEVERE'' = Some p4"
    "map_of pd ''CATASTROPHIC'' = Some p5" "lsr row = x"
  shows "fill_row p1 p2 p3 p4 p5 score extra row = filled_row (remark, pd, score, extra) x"
  using assms by (simp add: fill_row_def filled_row_def)

lemma consolidate_record_ok:
  assumes "has_classes r" and "0 \<le> start + j" and "start + j < int (length t)"
    and "lsr (t ! nat (start + j)) = x"
  shows "consolidate_record True start (py_str j, r) t
         = Inr (t[nat (start + j) := filled_row r x])"
proof -
  obtain remark pd score extra where r: "r = (remark, pd, score, extra)"
    by (cases r) auto
  obtain p1 p2 p3 p4 p5 where p: "map_of pd ''MINOR'' = Some p1"
    "map_of pd ''MODERATE'' = Some p2" "map_of pd ''SERIOUS'' = Some p3"
    "map_of pd ''SEVERE'' = Some p4" "map_of pd ''CATASTROPHIC'' = Some p5"
    using assms(1) by (auto simp: has_classes_def r)
  show ?thesis
    unfolding consolidate_record_def r
    using assms(2,3) fill_row_filled [OF p assms(4), of score extra remark]
    by (simp add: py_int_py_str p Let_def)
qed

lemma consolidate_records_append:
  "consolidate_records True start (xs @ ys) t =
     (case consolidate_records True start xs t of
        Inl e \<Rightarrow> Inl e
      | Inr t' \<Rightarrow> consolidate_records True start ys t')"
  by (induction xs arbitrary: t) (auto split: sum.splits)

lemma table_mid_length [simp]:
  "length (table_mid b recs reports K k m) = length reports"
  by (simp add: table_mid_def)

lemma table_mid_lsr:
  "i < length reports \<Longrightarrow> lsr (table_mid b recs reports K k m ! i) = reports ! i"
  by (auto simp: table_mid_def filled_row_def empty_row_def split: prod.splits)

lemma table_mid_step:
  assumes "0 < b" and "0 \<le> k" and "0 \<le> j" and "j < b"
    and "k * b + j < int (length reports)"
  shows "(table_mid b recs reports K k j)
           [nat (k * b + j) := filled_row (recs k j) (reports ! nat (k * b + j))]
         = table_mid b recs reports K k (j + 1)"
proof (rule nth_equalityI)
  show "length ((table_mid b recs reports K k j)
           [nat (k * b + j) := filled_row (recs k j) (reports ! nat (k * b + j))])
      = length (table_mid b recs reports K k (j + 1))" by simp
next
  fix i
  assume "i < length ((table_mid b recs reports K k j)
           [nat (k * b + j) := filled_row (recs k j) (reports ! nat (k * b + j))])"
  then have i: "i < length reports" by simp
  have idx: "0 \<le> k * b + j" using assms by simp
  have dm: "(k * b + j) div b = k" "(k * b + j) mod b = j"
    using assms by (simp_all add: div_pos_pos_trivial mod_pos_pos_trivial)
  show "(table_mid b recs reports K k j)
           [nat (k * b + j) := filled_row (recs k j) (reports ! nat (k * b + j))] ! i
      = table_mid b recs reports K k (j + 1) ! i"
  proof (cases "i = nat (k * b + j)")
    case True
    then have "int i = k * b + j" using idx by simp
    then show ?thesis using i True dm by (simp add: table_mid_def)
  next
    case False
    then have ne: "int i \<noteq> k * b + j" using idx by auto
    have "\<not> (int i div b = k \<and> int i mod b = j)"
    proof
      assume "int i div b = k \<and> int i mod b = j"
      then have "int i = k * b + j"
        using div_mult_mod_eq [of "int i" b] by simp
      then show False using ne by simp
    qed
    then have "(int i div b = k \<and> int i mod b < j + 1) \<longleftrightarrow> (int i div b = k \<and> int i mod b < j)"
      by auto
    then show ?thesis using i False by (simp add: table_mid_def)
  qed
qed

lemma consolidate_batch_prefix:
  assumes "0 < b" and "0 \<le> k" and "\<forall>j. has_classes (recs k j)"
  shows "int q \<le> b \<Longrightarrow> k * b + int q \<le> int (length reports) \<Longrightarrow>
     consolidate_records True (k * b) (artifact_of (recs k) (int q))
       (table_mid b recs reports K k 0)
     = Inr (table_mid b recs reports K k (int q))"
proof (induction q)
  case 0
  then show ?case by (simp add: artifact_of_def)
next
  case (Suc q)
  have a: "artifact_of (recs k) (int (Suc q))
      = artifact_of (recs k) (int q) @ [(py_str (int q), recs k (int q))]"
    using upto_rec2 [of 0 "int q"] by (simp add: artifact_of_def)
  have a': "artifact_of (recs k) (int q + 1)
      = artifact_of (recs k) (int q) @ [(py_str (int q), recs k (int q))]"
    using a by (simp add: add.commute)
  have IH: "consolidate_records True (k * b) (artifact_of (recs k) (int q))
       (table_mid b recs reports K k 0) = Inr (table_mid b recs reports K k (int q))"
    using Suc by simp
  have r: "k * b + int q < int (length reports)" "int q < b" using Suc.prems by simp_all
  have nn: "0 \<le> k * b + int q" using assms(1,2) by simp
  have l: "lsr (table_mid b recs reports K k (int q) ! nat (k * b + int q))
      = reports ! nat (k * b + int q)"
    using r nn by (intro table_mid_lsr) simp
  have "consolidate_record True (k * b) (py_str (int q), recs k (int q))
        (table_mid b recs reports K k (int q))
      = Inr ((table_mid b recs reports K k (int q))
          [nat (k * b + int q) := filled_row (recs k (int q)) (reports ! nat (k * b + int q))])"
    using assms(3) nn r l by (intro consolidate_record_ok) simp_all
  also have "\<dots> = Inr (table_mid b recs reports K k (int q + 1))"
    using table_mid_step [OF assms(1,2) _ r(2) r(1), of recs K] by simp
  finally have step: "consolidate_record True (k * b) (py_str (int q), recs k (int q))
        (table_mid b recs reports K k (int q))
      = Inr (table_mid b recs reports K k (int q + 1))" .
  have e: "int (Suc q) = int q + 1" by simp
  show ?case
    unfolding e a' consolidate_records_append IH
    by (simp add: step)
qed


lemma table_mid_start:
  assumes "0 < b"
  shows "table_mid b recs reports K k 0 = table_after b recs reports K"
proof -
  have "\<not> int i mod b < 0" for i using assms by (simp add: not_less)
  then show ?thesis by (simp add: table_mid_def table_after_def)
qed

lemma table_mid_done:
  assumes "0 < b" and "0 \<le> k"
    and "m = min b (int (length reports) - k * b)"
  shows "table_mid b recs reports K k m = table_after b recs reports (insert k K)"
proof -
  have "int i mod b < m" if "i < length reports" and "int i div b = k" for i
  proof -
    have "int i = k * b + int i mod b"
      using div_mult_mod_eq [of "int i" b] that(2) by simp
    then have "int i mod b < int (length reports) - k * b" using that(1) by linarith
    moreover have "int i mod b < b" using assms(1) by simp
    ultimately show ?thesis using assms(3) by simp
  qed
  then have "(int i div b \<in> K \<or> (int i div b = k \<and> int i mod b < m))
      \<longleftrightarrow> int i div b \<in> insert k K" if "i < length reports" for i
    using that by auto
  then show ?thesis
    unfolding table_mid_def table_after_def by (intro map_cong refl) simp
qed

lemma plan_of_entry:
  assumes "0 \<le> n" and "0 < b" and "(k, bt) \<in> set (plan_of n b)"
  shows "0 \<le> k" and "k * b < n" and "batch_length bt = min b (n - k * b)"
proof -
  let ?q = "n div b"
  have e: "n = b * ?q + n mod b" by simp
  have m: "0 \<le> n mod b" "n mod b < b" using assms(2) by simp_all
  consider (full) "0 \<le> k" "k \<le> ?q - 1" "bt = full_batch b k"
    | (part) "k = ?q" "0 < n mod b"
        "bt = \<lparr>indices = (b * ?q, b * ?q + n mod b - 1), processed = False\<rparr>"
    using assms(3) by (auto simp: plan_of_def split: if_splits)
  then have "0 \<le> k \<and> k * b < n \<and> batch_length bt = min b (n - k * b)"
  proof cases
    case full
    have "b * k \<le> b * (?q - 1)" using full(2) assms(2) by (intro mult_left_mono) simp_all
    then have "b * k + b \<le> b * ?q" by (simp add: algebra_simps)
    then have "b * k + b \<le> n" using e m(1) by linarith
    then show ?thesis
      using full assms(2) by (simp add: batch_length_def full_batch_def algebra_simps)
  next
    case part
    have q: "0 \<le> ?q" using assms(1,2) by (simp add: pos_imp_zdiv_nonneg_iff)
    have "n - ?q * b = n mod b" by (simp add: minus_mult_div_eq_mod mult.commute)
    then show ?thesis
      using part q m by (simp add: batch_length_def mult.commute)
  qed
  then show "0 \<le> k" and "k * b < n" and "batch_length bt = min b (n - k * b)" by simp_all
qed

lemma map_of_map_keyed:
  "k \<in> set ks \<Longrightarrow> inj_on f (set ks) \<Longrightarrow>
   map_of (map (\<lambda>k. (f k, g k)) ks) (f k) = Some (g k)"
  by (induction ks) (auto simp: inj_on_def)

lemma artifact_path_inj:
  "inj (\<lambda>k. os_path_join path (batch_filename uuid k))"
proof (rule injI)
  fix k k'
  assume "os_path_join path (batch_filename uuid k) = os_path_join path (batch_filename uuid k')"
  then have "file_batch_id (os_path_join path (batch_filename uuid k))
      = file_batch_id (os_path_join path (batch_filename uuid k'))" by simp
  then have "py_str k = py_str k'" by (simp only: file_batch_id_joined)
  then have "py_int (py_str k) = py_int (py_str k')" by simp
  then show "k = k'" by (simp only: py_int_py_str sum.inject)
qed

lemma read_artifact:
  assumes "k \<in> set ks"
  shows "read_json_results path (map (run_artifact uuid p recs) ks)
           (os_path_join path (batch_filename uuid k))
         = Inr (snd (run_artifact uuid p recs k))"
proof -
  have eq: "map (\<lambda>(name, content). (os_path_join path name, content))
          (map (run_artifact uuid p recs) ks)
      = map (\<lambda>k. (os_path_join path (batch_filename uuid k), snd (run_artifact uuid p recs k))) ks"
    by (simp add: run_artifact_def)
  have inj: "inj_on (\<lambda>k. os_path_join path (batch_filename uuid k)) (set ks)"
    using artifact_path_inj [of path uuid] by (rule inj_on_subset) simp
  have "map_of (map (\<lambda>k. (os_path_join path (batch_filename uuid k),
                            snd (run_artifact uuid p recs k))) ks)
          (os_path_join path (batch_filename uuid k))
      = Some (snd (run_artifact uuid p recs k))"
    using assms inj by (rule map_of_map_keyed)
  then show ?thesis
    unfolding read_json_results_def eq by simp
qed

lemma consolidate_files_table:
  assumes "0 < BATCH_SIZE cfg"
    and "\<forall>k j. has_classes (recs k j)"
  shows "set ks \<subseteq> set ks0 \<Longrightarrow>
     set ks \<subseteq> fst ` set (plan_of (int (length reports)) (BATCH_SIZE cfg)) \<Longrightarrow>
     consolidate_files True cfg
       (map (run_artifact (lsr_uuid cfg) (plan_of (int (length reports)) (BATCH_SIZE cfg)) recs) ks0)
       (map (\<lambda>k. os_path_join (RESULTS_OUTPUT cfg) (batch_filename (lsr_uuid cfg) k)) ks)
       (table_after (BATCH_SIZE cfg) recs reports K)
     = Inr (table_after (BATCH_SIZE cfg) recs reports (K \<union> set ks))"
proof (induction ks arbitrary: K)
  case Nil
  then show ?case by simp
next
  case (Cons k ks)
  let ?b = "BATCH_SIZE cfg"
  let ?n = "int (length reports)"
  let ?p = "plan_of ?n ?b"
  from Cons.prems(2) obtain bt where bt: "(k, bt) \<in> set ?p" by auto
  have dist: "distinct (map fst ?p)"
    using plan_of_ids [of ?n ?b] assms(1) by simp
  have look: "map_of ?p k = Some bt" using bt dist by simp
  have k0: "0 \<le> k" and kn: "k * ?b < ?n" and len: "batch_length bt = min ?b (?n - k * ?b)"
    using plan_of_entry [OF _ assms(1) bt] by simp_all
  have rd: "read_json_results (RESULTS_OUTPUT cfg) (map (run_artifact (lsr_uuid cfg) ?p recs) ks0)
      (os_path_join (RESULTS_OUTPUT cfg) (batch_filename (lsr_uuid cfg) k))
      = Inr (artifact_of (recs k) (batch_length bt))"
    using Cons.prems(1) read_artifact [of k ks0 "RESULTS_OUTPUT cfg" "lsr_uuid cfg" ?p recs]
    by (simp add: run_artifact_def look)
  have bl: "0 \<le> batch_length bt" using len assms(1) kn by simp
  have "consolidate_records True (k * ?b) (artifact_of (recs k) (int (nat (batch_length bt))))
       (table_mid ?b recs reports K k 0)
     = Inr (table_mid ?b recs reports K k (int (nat (batch_length bt))))"
    using assms(2) len bl
    by (intro consolidate_batch_prefix [OF assms(1) k0]) auto
  then have batch: "consolidate_records True (k * ?b) (artifact_of (recs k) (batch_length bt))
       (table_after ?b recs reports K)
     = Inr (table_after ?b recs reports (insert k K))"
    using bl table_mid_start [OF assms(1), of recs reports K k]
      table_mid_done [OF assms(1) k0 len, of recs K]
    by simp
  have sub: "set ks \<subseteq> set ks0" "set ks \<subseteq> fst ` set ?p" using Cons.prems by auto
  have "consolidate_files True cfg (map (run_artifact (lsr_uuid cfg) ?p recs) ks0)
       (map (\<lambda>k. os_path_join (RESULTS_OUTPUT cfg) (batch_filename (lsr_uuid cfg) k)) ks)
       (table_after ?b recs reports (insert k K))
     = Inr (table_after ?b recs reports (insert k K \<union> set ks))"
    using Cons.IH [OF sub] .
  then show ?case
    by (simp add: rd file_batch_id_joined py_int_py_str batch)
qed


lemma plan_of_nonempty:
  assumes "0 < n" and "0 < b"
  shows "plan_of n b \<noteq> []"
proof (cases "n mod b > 0")
  case True
  then show ?thesis by (simp add: plan_of_def)
next
  case False
  then have "n mod b = 0" using pos_mod_sign [OF assms(2), of n] by linarith
  then have "n = b * (n div b)" using div_mult_mod_eq [of n b] by (simp add: mult.commute)
  then have "0 < n div b" using assms by (metis zero_less_mult_pos)
  then have "[0..n div b - 1] \<noteq> []" by simp
  then show ?thesis by (simp add: plan_of_def)
qed

lemma plan_of_covers:
  assumes "0 < b" and "int i < n"
  shows "int i div b \<in> fst ` set (plan_of n b)"
proof -
  have n: "0 \<le> n" using assms(2) by linarith
  have lo: "0 \<le> int i div b" using assms(1) by (simp add: pos_imp_zdiv_nonneg_iff)
  have le: "int i div b \<le> n div b" using assms by (intro zdiv_mono1) simp_all
  have "int i div b \<le> n div b + (if n mod b \<noteq> 0 then 1 else 0) - 1"
  proof (cases "int i div b = n div b")
    case False
    then show ?thesis using le by simp
  next
    case True
    have "n mod b \<noteq> 0"
    proof
      assume z: "n mod b = 0"
      have "b * (n div b) + n mod b = n" by simp
      then have "n = b * (int i div b)" using z True by simp
      moreover have "b * (int i div b) \<le> int i"
      proof -
        have "int i div b * b + int i mod b = int i" by simp
        moreover have "0 \<le> int i mod b" using assms(1) by simp
        ultimately have "int i div b * b \<le> int i" by linarith
        then show ?thesis by (simp add: mult.commute)
      qed
      ultimately show False using assms(2) by linarith
    qed
    then show ?thesis using True by simp
  qed
  then have "int i div b \<in> set (map fst (plan_of n b))"
    using lo unfolding plan_of_ids [OF n assms(1)] by simp
  then show ?thesis by (metis set_map)
qed


lemma table_after_empty:
  "table_after b recs reports {} = map empty_row reports"
proof -
  have "map (\<lambda>i. empty_row (reports ! i)) [0..<length reports] = map empty_row reports"
    by (rule nth_equalityI) simp_all
  then show ?thesis by (simp add: table_after_def)
qed

lemma filled_row_complete:
  "has_classes r \<Longrightarrow>
     MINOR (filled_row r x) \<noteq> None \<and> MODERATE (filled_row r x) \<noteq> None
     \<and> SERIOUS (filled_row r x) \<noteq> None \<and> SEVERE (filled_row r x) \<noteq> None
     \<and> CATASTROPHIC (filled_row r x) \<noteq> None \<and> FFSI (filled_row r x) \<noteq> None
     \<and> EXTRA (filled_row r x) \<noteq> None \<and> lsr (filled_row r x) = x"
  by (cases r) (auto simp: has_classes_def filled_row_def)

text \<open>
  When the row object is a view of the table: the directory that holds one artifact for
  every batch of the plan, in any order, is consolidated into the table whose row \<open>i\<close>
  has the fields of the record \<open>i mod batch_size\<close> of the batch \<open>i div batch_size\<close>, and
  none of the seven new fields of a row is empty (\<open>filled_row_complete\<close>).
\<close>

lemma consolidate_artifacts:
  assumes "0 < BATCH_SIZE cfg" and "lsr_reports \<noteq> []"
    and "define_batches (int (length lsr_reports)) (BATCH_SIZE cfg) = Inr p"
    and "set ks = fst ` set p"
    and "\<forall>k j. has_classes (recs k j)"
  shows "consolidate True cfg lsr_reports (map (run_artifact (lsr_uuid cfg) p recs) ks)
         = Inr (Some (map (\<lambda>i. filled_row
                              (recs (int i div BATCH_SIZE cfg) (int i mod BATCH_SIZE cfg))
                              (lsr_reports ! i))
                        [0..<length lsr_reports]))"
proof -
  let ?b = "BATCH_SIZE cfg"
  let ?n = "int (length lsr_reports)"
  have ne: "?b \<noteq> 0" using assms(1) by simp
  have p: "p = plan_of ?n ?b"
    using assms(3) define_batches_closed [OF ne, of ?n] by simp
  have n: "0 < ?n" using assms(2) by simp
  have "p \<noteq> []" unfolding p using plan_of_nonempty [OF n assms(1)] .
  then have ks: "ks \<noteq> []" using assms(4) by auto
  let ?dir = "map (run_artifact (lsr_uuid cfg) p recs) ks"
  have names: "map fst ?dir = map (batch_filename (lsr_uuid cfg)) ks"
    by (simp add: run_artifact_def comp_def)
  have files: "filter (str_contains (lsr_uuid cfg))
        (get_files_in_dir (RESULTS_OUTPUT cfg) ''.json'' (map fst ?dir))
      = map (\<lambda>k. os_path_join (RESULTS_OUTPUT cfg) (batch_filename (lsr_uuid cfg) k)) ks"
    unfolding names by (rule artifact_files_selected)
  have sub: "set ks \<subseteq> set ks" "set ks \<subseteq> fst ` set (plan_of ?n ?b)"
    using assms(4) p by simp_all
  have merged: "consolidate_files True cfg ?dir
       (map (\<lambda>k. os_path_join (RESULTS_OUTPUT cfg) (batch_filename (lsr_uuid cfg) k)) ks)
       (map empty_row lsr_reports)
     = Inr (table_after ?b recs lsr_reports (set ks))"
    using consolidate_files_table [OF assms(1) assms(5) sub, where K = "{}"]
    by (simp add: table_after_empty p)
  have all: "table_after ?b recs lsr_reports (set ks)
      = map (\<lambda>i. filled_row (recs (int i div ?b) (int i mod ?b)) (lsr_reports ! i))
          [0..<length lsr_reports]"
    unfolding table_after_def
  proof (intro map_cong refl)
    fix i assume "i \<in> set [0..<length lsr_reports]"
    then have "int i < ?n" by simp
    then have "int i div ?b \<in> set ks"
      using plan_of_covers [OF assms(1), of i ?n] assms(4) p by simp
    then show "(if int i div ?b \<in> set ks
        then filled_row (recs (int i div ?b) (int i mod ?b)) (lsr_reports ! i)
        else empty_row (lsr_reports ! i))
      = filled_row (recs (int i div ?b) (int i mod ?b)) (lsr_reports ! i)" by simp
  qed
  show ?thesis
    unfolding consolidate_def Let_def files merged all using ks by simp
qed

text \<open>
  The same consolidation with a view, executed: the artifacts are found in the order
  2, 0, 1 and the 25 rows come out in the order of the reports (the score of the sample
  record is its global position).
\<close>

lemma consolidate_25_executed:
  "consolidate True run25 reports25 (map (run_artifact ''run'' plan25 sample_record) [2, 0, 1])
   = Inr (Some (map (\<lambda>i. \<lparr>lsr = i, MINOR = Some 1, MODERATE = Some 0, SERIOUS = Some 0,
                          SEVERE = Some 0, CATASTROPHIC = Some 0, FFSI = Some (of_nat i),
                          EXTRA = Some ''note''\<rparr>) [0..<25]))"
  by code_simp

text \<open>
  With a view, the artifacts the driver writes for the small run are consolidated into
  the full table: every row has the fields of its record.
\<close>

lemma small_run_round_trip:
  "consolidate True small_run (remarks small_run)
     (results_dir (fst (run_driver small_run empty_answers (initial_state small_plan []))))
   = Inr (Some (map (\<lambda>x. \<lparr>lsr = x, MINOR = Some 0, MODERATE = Some 0, SERIOUS = Some 0,
                          SEVERE = Some 0, CATASTROPHIC = Some 0, FFSI = Some 0,
                          EXTRA = Some []\<rparr>) (remarks small_run)))"
  by code_simp

subsection \<open>When the row object is a copy\<close>

text \<open>
  With a copy, a record of an artifact raises what it raises with a view and otherwise
  leaves the table as it was; so do the records of an artifact, and the artifacts of a
  directory.
\<close>

lemma consolidate_record_copy:
  assumes "length t' = length t" and "consolidate_record True start entry t = Inr u"
  shows "consolidate_record False start entry t' = Inr t'" and "length u = length t"
  using assms
  by (auto simp: consolidate_record_def Let_def
           split: prod.splits sum.splits option.splits if_splits)

lemma consolidate_records_copy:
  "length t' = length t \<Longrightarrow> consolidate_records True start xs t = Inr u \<Longrightarrow>
   consolidate_records False start xs t' = Inr t' \<and> length u = length t"
proof (induction xs arbitrary: t u)
  case Nil
  then show ?case by simp
next
  case (Cons x xs)
  from Cons.prems(2) obtain v where v: "consolidate_record True start x t = Inr v"
    and r: "consolidate_records True start xs v = Inr u"
    by (auto split: sum.splits)
  have a: "consolidate_record False start x t' = Inr t'" and l: "length v = length t"
    using consolidate_record_copy [OF Cons.prems(1) v] by simp_all
  have "length t' = length v" using Cons.prems(1) l by simp
  then show ?case using Cons.IH [OF _ r] a l by simp
qed

lemma consolidate_files_copy:
  "length t' = length t \<Longrightarrow> consolidate_files True cfg dir fs t = Inr u \<Longrightarrow>
   consolidate_files False cfg dir fs t' = Inr t'"
proof (induction fs arbitrary: t u)
  case Nil
  then show ?case by simp
next
  case (Cons f fs)
  from Cons.prems(2) obtain content batch_id v
    where c: "read_json_results (RESULTS_OUTPUT cfg) dir f = Inr content"
      and b: "py_int (file_batch_id f) = Inr batch_id"
      and v: "consolidate_records True (batch_id * BATCH_SIZE cfg) content t = Inr v"
      and r: "consolidate_files True cfg dir fs v = Inr u"
    by (auto split: sum.splits)
  have a: "consolidate_records False (batch_id * BATCH_SIZE cfg) content t' = Inr t'"
    and l: "length v = length t"
    using consolidate_records_copy [OF Cons.prems(1) v] by simp_all
  have "length t' = length v" using Cons.prems(1) l by simp
  then show ?case using Cons.IH [OF _ r] a c b by simp
qed

text \<open>
  So whenever the consolidation with a view returns a table, the consolidation with a
  copy returns the table of placeholders: no field of any row is filled.
\<close>

lemma consolidate_copy_placeholders:
  assumes "consolidate True cfg lsr_reports dir = Inr (Some t)"
  shows "consolidate False cfg lsr_reports dir = Inr (Some (map empty_row lsr_reports))"
proof -
  let ?fs = "filter (str_contains (lsr_uuid cfg))
               (get_files_in_dir (RESULTS_OUTPUT cfg) ''.json'' (map fst dir))"
  have ne: "?fs \<noteq> []" using assms by (auto simp: consolidate_def Let_def split: if_splits)
  have "consolidate_files True cfg dir ?fs (map empty_row lsr_reports) = Inr t"
    using assms ne by (auto simp: consolidate_def Let_def split: sum.splits)
  then have "consolidate_files False cfg dir ?fs (map empty_row lsr_reports)
      = Inr (map empty_row lsr_reports)"
    by (rule consolidate_files_copy [rotated]) simp
  then show ?thesis using ne by (simp add: consolidate_def Let_def)
qed

text \<open>
  For every complete run: with a copy, all the artifacts of the plan are read without
  an exception and the table written is the table of placeholders.
\<close>

lemma consolidate_artifacts_copy:
  assumes "0 < BATCH_SIZE cfg" and "lsr_reports \<noteq> []"
    and "define_batches (int (length lsr_reports)) (BATCH_SIZE cfg) = Inr p"
    and "set ks = fst ` set p"
    and "\<forall>k j. has_classes (recs k j)"
  shows "consolidate False cfg lsr_reports (map (run_artifact (lsr_uuid cfg) p recs) ks)
         = Inr (Some (map empty_row lsr_reports))"
  using consolidate_artifacts [OF assms] by (rule consolidate_copy_placeholders)

text \<open>
  Claim C5. The reports are 25, in batches of 10 (of sizes 10, 10 and 5), the three
  artifacts of the complete run are in the directory and are found in the order 2, 0, 1,
  every record has the five classes (100 for MINOR), a score and an extra text, and the
  row object that \<^verbatim>\<open>output_lsrs.loc[idx]\<close> returns is a copy. The consolidation reads the
  three artifacts, raises nothing, and returns the table in which every one of the 25
  rows is the placeholder of its report: the seven new fields of every row are empty,
  where the claim has every row filled from the record at
  \<open>batch_id * batch_size + local_index\<close>. With a view the same call returns the filled
  table, which is not the table returned here.
\<close>

theorem consolidation_leaves_placeholders:
  "consolidate False run25 reports25
     (map (run_artifact (lsr_uuid run25) plan25 sample_record) [2, 0, 1])
   = Inr (Some (map (\<lambda>i. \<lparr>lsr = i, MINOR = None, MODERATE = None, SERIOUS = None,
                          SEVERE = None, CATASTROPHIC = None, FFSI = None, EXTRA = None\<rparr>)
                  [0..<25]))
   \<and> consolidate True run25 reports25
        (map (run_artifact (lsr_uuid run25) plan25 sample_record) [2, 0, 1])
     \<noteq> consolidate False run25 reports25
        (map (run_artifact (lsr_uuid run25) plan25 sample_record) [2, 0, 1])
   \<and> define_batches (int (length reports25)) (BATCH_SIZE run25) = Inr plan25
   \<and> length reports25 = 25 \<and> BATCH_SIZE run25 = 10"
  by code_simp

section \<open>From a complete run to the consolidated table\<close>

text \<open>
  A run of the driver over a fresh plan that returns normally leaves one artifact per
  batch, each record with the five classes and the remark it was asked about. When the
  row object is a view, the consolidation of that directory is the full table, row
  \<open>i\<close> from remark \<open>i\<close>; when it is a copy, it is the table of placeholders.
\<close>

lemma classify_response_has_classes:
  assumes "classify_response remark result = Inr x"
  shows "has_classes x" and "fst x = remark"
proof -
  obtain pd where j: "json_loads (response_json result) = Inr pd"
    using assms by (cases "json_loads (response_json result)") (auto simp: classify_response_def)
  obtain score where f: "ffsi_score (PDict pd) False = Inr score"
    using assms j by (cases "ffsi_score (PDict pd) False") (auto simp: classify_response_def)
  have x: "x = (remark, pd, score, response_extra result)"
    using assms j f by (simp add: classify_response_def)
  show "fst x = remark" by (simp add: x)
  show "has_classes x"
    using f by (auto simp: x has_classes_def ffsi_score_def split: option.splits)
qed

lemma upto_int_nat: "[0..int n - 1] = map int [0..<n]"
proof (induction n)
  case 0
  then show ?case by simp
next
  case (Suc n)
  have "[0..int (Suc n) - 1] = [0..int n - 1] @ [int n]"
    using upto_rec2 [of 0 "int n"] by simp
  then show ?case using Suc by simp
qed

lemma classify_loop_results:
  "classify_loop gpt d w 0 t i rs acc s = (s', Inr res) \<Longrightarrow> map fst acc = [0..i - 1] \<Longrightarrow>
   0 \<le> i \<Longrightarrow>
   \<exists>rf. res = acc @ map (\<lambda>j. (i + int j, rf j)) [0..<length rs]
        \<and> (\<forall>j < length rs. has_classes (rf j) \<and> fst (rf j) = rs ! j)"
proof (induction rs arbitrary: i acc s)
  case Nil
  then show ?case by simp
next
  case (Cons r rs)
  obtain s1 qres where q: "query_gpt gpt d r s = (s1, qres)" by (cases "query_gpt gpt d r s")
  from Cons.prems(1) q obtain result where qr: "qres = Inr result"
    by (cases qres) auto
  from Cons.prems(1) q qr obtain x where x: "classify_response r result = Inr x"
    by (cases "classify_response r result") auto
  define s2 where "s2 = (if i < t - 1 then wait_timeout w s1 else s1)"
  have fresh: "i \<notin> fst ` set acc"
  proof -
    have "i \<notin> set [0..i - 1]" by simp
    then show ?thesis using Cons.prems(2) by (metis set_map)
  qed
  have upd: "AList.update i x acc = acc @ [(i, x)]" using fresh by (rule update_fresh)
  have rec: "classify_loop gpt d w 0 t (i + 1) rs (acc @ [(i, x)]) s2 = (s', Inr res)"
    using Cons.prems(1) q qr x by (simp add: upd s2_def)
  have keys: "map fst (acc @ [(i, x)]) = [0..(i + 1) - 1]"
    using Cons.prems(2,3) upto_rec2 [of 0 i] by simp
  obtain rf where res: "res = (acc @ [(i, x)]) @ map (\<lambda>j. (i + 1 + int j, rf j)) [0..<length rs]"
    and ok: "\<forall>j < length rs. has_classes (rf j) \<and> fst (rf j) = rs ! j"
    using Cons.IH [OF rec keys] Cons.prems(3) by auto
  define rf' where "rf' = (\<lambda>j. case j of 0 \<Rightarrow> x | Suc j' \<Rightarrow> rf j')"
  have "map (\<lambda>j. (i + int j, rf' j)) [0..<length (r # rs)]
      = (i, x) # map (\<lambda>j. (i + 1 + int j, rf j)) [0..<length rs]"
    by (simp add: rf'_def upt_conv_Cons map_Suc_upt [symmetric] del: upt_Suc)
  then have "res = acc @ map (\<lambda>j. (i + int j, rf' j)) [0..<length (r # rs)]"
    using res by simp
  moreover have "\<forall>j < length (r # rs). has_classes (rf' j) \<and> fst (rf' j) = (r # rs) ! j"
    using ok classify_response_has_classes [OF x]
    by (auto simp: rf'_def split: nat.splits)
  ultimately show ?case by blast
qed


lemma classify_lsr_remarks_artifact:
  assumes "classify_lsr_remarks gpt rs d w 0 0 s = (s', Inr res)"
  shows "\<exists>r. json_dump res = artifact_of r (int (length rs))
           \<and> (\<forall>j. has_classes (r j))
           \<and> (\<forall>j < length rs. fst (r (int j)) = rs ! j)"
proof -
  have l: "classify_loop gpt d w 0 (int (length rs)) 0 rs [] s = (s', Inr res)"
    using assms by (simp add: classify_lsr_remarks_def)
  obtain rf where res: "res = map (\<lambda>j. (int j, rf j)) [0..<length rs]"
    and ok: "\<forall>j < length rs. has_classes (rf j) \<and> fst (rf j) = rs ! j"
    using classify_loop_results [OF l] by auto
  define dflt :: lsr_result where
    "dflt = ([], [(''MINOR'', 0), (''MODERATE'', 0), (''SERIOUS'', 0), (''SEVERE'', 0),
                  (''CATASTROPHIC'', 0)], 0, [])"
  define r where "r = (\<lambda>z. if 0 \<le> z \<and> z < int (length rs) then rf (nat z) else dflt)"
  have d: "has_classes dflt" by (simp add: dflt_def has_classes_def)
  have "json_dump res = map (\<lambda>j. (py_str (int j), rf j)) [0..<length rs]"
    by (simp add: json_dump_def res comp_def)
  also have "\<dots> = map (\<lambda>j. (py_str (int j), r (int j))) [0..<length rs]"
    by (intro map_cong refl) (simp add: r_def)
  also have "\<dots> = artifact_of r (int (length rs))"
    by (simp add: artifact_of_def upto_int_nat comp_def)
  finally have "json_dump res = artifact_of r (int (length rs))" .
  moreover have "\<forall>j. has_classes (r j)" using ok d by (auto simp: r_def)
  moreover have "\<forall>j < length rs. fst (r (int j)) = rs ! j" using ok by (simp add: r_def)
  ultimately show ?thesis by blast
qed

lemma attempt_batch_artifact:
  assumes "attempt_batch cfg gpt rs s = (s1, Inr res)"
  shows "\<exists>r. json_dump res = artifact_of r (int (length rs))
           \<and> (\<forall>j. has_classes (r j))
           \<and> (\<forall>j < length rs. fst (r (int j)) = rs ! j)"
proof -
  let ?c = "classify_lsr_remarks gpt rs (impact_defs cfg) (WAIT_TIME cfg) 0 0"
  obtain s0 r0 where c: "?c s = (s0, r0)" by (cases "?c s")
  show ?thesis
  proof (cases r0)
    case (Inr x)
    then have "?c s = (s1, Inr res)" using assms c by (simp add: attempt_batch_def)
    then show ?thesis by (rule classify_lsr_remarks_artifact)
  next
    case (Inl e)
    then have "caught e" using assms c by (auto simp: attempt_batch_def split: if_splits)
    then have "?c (wait_timeout 10 s0) = (s1, Inr res)"
      using assms c Inl by (simp add: attempt_batch_def)
    then show ?thesis by (rule classify_lsr_remarks_artifact)
  qed
qed

lemma py_slice_inside:
  assumes "0 \<le> i" and "i \<le> j" and "j \<le> int (length xs)"
  shows "length (py_slice xs i j) = nat (j - i)"
    and "m < nat (j - i) \<Longrightarrow> py_slice xs i j ! m = xs ! (nat i + m)"
proof -
  have e: "py_slice xs i j = take (nat (j - i)) (drop (nat i) xs)"
    using assms by (simp add: py_slice_def Let_def min_def)
  show "length (py_slice xs i j) = nat (j - i)"
    unfolding e using assms by simp
  show "py_slice xs i j ! m = xs ! (nat i + m)" if "m < nat (j - i)"
    unfolding e using assms that by simp
qed

lemma plan_of_indices:
  assumes "0 \<le> n" and "0 < b" and "(k, bt) \<in> set (plan_of n b)"
  shows "fst (indices bt) = k * b" and "snd (indices bt) + 1 = k * b + batch_length bt"
proof -
  have "fst (indices bt) = k * b"
    using assms(3) by (auto simp: plan_of_def full_batch_def mult.commute split: if_splits)
  then show "fst (indices bt) = k * b" and "snd (indices bt) + 1 = k * b + batch_length bt"
    by (simp_all add: batch_length_def)
qed


lemma batch_filename_inj: "batch_filename uuid k = batch_filename uuid k' \<Longrightarrow> k = k'"
proof -
  assume "batch_filename uuid k = batch_filename uuid k'"
  then have "py_str k = py_str k'" by (simp add: batch_filename_def)
  then have "py_int (py_str k) = py_int (py_str k')" by simp
  then show "k = k'" by (simp only: py_int_py_str sum.inject)
qed

lemma process_batch_artifact:
  assumes "0 < BATCH_SIZE cfg"
    and "(k, bt) \<in> set (plan_of (int (length (remarks cfg))) (BATCH_SIZE cfg))"
    and "map_of (batches s) k = Some bt"
    and "process_batch cfg gpt k s = (s1, None)"
    and "batch_filename (lsr_uuid cfg) k \<notin> fst ` set (results_dir s)"
  shows "\<exists>r. results_dir s1 = results_dir s
                 @ [(batch_filename (lsr_uuid cfg) k, artifact_of r (batch_length bt))]
           \<and> (\<forall>j. has_classes (r j))
           \<and> (\<forall>j. 0 \<le> j \<and> j < batch_length bt
                 \<longrightarrow> fst (r j) = remarks cfg ! nat (k * BATCH_SIZE cfg + j))"
    and "batches s1 = AList.update k (bt\<lparr>processed := True\<rparr>) (batches s)"
proof -
  let ?b = "BATCH_SIZE cfg"
  let ?n = "int (length (remarks cfg))"
  have np: "\<not> processed bt" using assms(2) plan_of_unprocessed [of bt ?n ?b] by force
  have k0: "0 \<le> k" and kn: "k * ?b < ?n" and len: "batch_length bt = min ?b (?n - k * ?b)"
    using plan_of_entry [OF _ assms(1,2)] by simp_all
  have ix: "fst (indices bt) = k * ?b" "snd (indices bt) + 1 = k * ?b + batch_length bt"
    using plan_of_indices [OF _ assms(1,2)] by simp_all
  let ?cur = "py_slice (remarks cfg) (k * ?b) (k * ?b + batch_length bt)"
  have lo: "0 \<le> k * ?b" using k0 assms(1) by simp
  have bl: "0 \<le> batch_length bt" using len kn assms(1) by simp
  have hi: "k * ?b + batch_length bt \<le> ?n" using len by simp
  have cl: "length ?cur = nat (batch_length bt)"
    using py_slice_inside(1) [OF lo _ hi] bl by simp
  have cn: "?cur ! m = remarks cfg ! (nat (k * ?b) + m)" if "m < nat (batch_length bt)" for m
    using py_slice_inside(2) [OF lo _ hi, of m] bl that by simp
  obtain s0 res0 where a: "attempt_batch cfg gpt ?cur s = (s0, res0)"
    by (cases "attempt_batch cfg gpt ?cur s")
  obtain res where r: "res0 = Inr res" and s1: "s1 = complete_batch cfg k bt res s0"
    using assms(3,4) np a ix by (cases res0) (auto simp: process_batch_def)
  have f: "frame s s0" using frame_attempt_batch [of s cfg gpt ?cur] a by simp
  obtain rr where dump: "json_dump res = artifact_of rr (int (length ?cur))"
    and hc: "\<forall>j. has_classes (rr j)"
    and rem: "\<forall>j < length ?cur. fst (rr (int j)) = ?cur ! j"
    using attempt_batch_artifact [of cfg gpt ?cur s s0 res] a r by auto
  have "results_dir s1 = AList.update (batch_filename (lsr_uuid cfg) k) (json_dump res)
      (results_dir s)"
    using s1 f by (simp add: complete_batch_def frame_def)
  also have "\<dots> = results_dir s @ [(batch_filename (lsr_uuid cfg) k, json_dump res)]"
    using assms(5) by (rule update_fresh)
  finally have rd: "results_dir s1 = results_dir s
      @ [(batch_filename (lsr_uuid cfg) k, artifact_of rr (batch_length bt))]"
    using dump cl bl by simp
  have link: "fst (rr j) = remarks cfg ! nat (k * ?b + j)"
    if "0 \<le> j \<and> j < batch_length bt" for j
  proof -
    have "nat j < length ?cur" using that cl by simp
    then have "fst (rr (int (nat j))) = ?cur ! nat j" using rem by blast
    moreover have "?cur ! nat j = remarks cfg ! (nat (k * ?b) + nat j)"
      using cn [of "nat j"] that by simp
    moreover have "nat (k * ?b) + nat j = nat (k * ?b + j)"
      using lo that by (simp add: nat_add_distrib)
    ultimately show ?thesis using that by simp
  qed
  show "\<exists>r. results_dir s1 = results_dir s
                 @ [(batch_filename (lsr_uuid cfg) k, artifact_of r (batch_length bt))]
           \<and> (\<forall>j. has_classes (r j))
           \<and> (\<forall>j. 0 \<le> j \<and> j < batch_length bt
                 \<longrightarrow> fst (r j) = remarks cfg ! nat (k * BATCH_SIZE cfg + j))"
    using rd hc link by blast
  show "batches s1 = AList.update k (bt\<lparr>processed := True\<rparr>) (batches s)"
    using s1 f by (simp add: complete_batch_def frame_def)
qed


lemma driver_loop_artifacts:
  assumes "0 < BATCH_SIZE cfg" and "MAX_BATCHES cfg = 0"
    and "p = plan_of (int (length (remarks cfg))) (BATCH_SIZE cfg)"
  shows "distinct ks \<Longrightarrow> set ks \<subseteq> fst ` set p \<Longrightarrow>
     \<forall>k \<in> set ks. map_of (batches s) k = map_of p k \<Longrightarrow>
     \<forall>k \<in> set ks. batch_filename (lsr_uuid cfg) k \<notin> fst ` set (results_dir s) \<Longrightarrow>
     driver_loop cfg gpt ks s = (s', None) \<Longrightarrow>
     \<exists>recs. (\<forall>k j. has_classes (recs k j))
       \<and> results_dir s' = results_dir s @ map (run_artifact (lsr_uuid cfg) p recs) ks
       \<and> (\<forall>k \<in> set ks. \<forall>bt j. map_of p k = Some bt \<and> 0 \<le> j \<and> j < batch_length bt
             \<longrightarrow> fst (recs k j) = remarks cfg ! nat (k * BATCH_SIZE cfg + j))"
proof (induction ks arbitrary: s)
  case Nil
  have "has_classes ([], [(''MINOR'', 0), (''MODERATE'', 0), (''SERIOUS'', 0), (''SEVERE'', 0),
      (''CATASTROPHIC'', 0)], 0, [])" by (simp add: has_classes_def)
  then have "\<exists>recs :: int \<Rightarrow> int \<Rightarrow> lsr_result. \<forall>k j. has_classes (recs k j)"
    by (intro exI [of _ "\<lambda>k j. ([], [(''MINOR'', 0), (''MODERATE'', 0), (''SERIOUS'', 0),
      (''SEVERE'', 0), (''CATASTROPHIC'', 0)], 0, [])"]) simp
  then show ?case using Nil by auto
next
  case (Cons k ks)
  let ?b = "BATCH_SIZE cfg"
  have dist: "distinct (map fst p)"
    unfolding assms(3) using plan_of_ids [of "int (length (remarks cfg))" ?b] assms(1) by simp
  from Cons.prems(2) obtain bt where bt: "(k, bt) \<in> set p" by auto
  have look: "map_of p k = Some bt" using bt dist by simp
  have cur: "map_of (batches s) k = Some bt" using Cons.prems(3) look by simp
  obtain s1 r0 where pb: "process_batch cfg gpt k s = (s1, r0)"
    by (cases "process_batch cfg gpt k s")
  have r0: "r0 = None" using Cons.prems(5) pb by (cases r0) auto
  have l: "driver_loop cfg gpt ks s1 = (s', None)"
    using Cons.prems(5) pb r0 assms(2) by simp
  have fresh: "batch_filename (lsr_uuid cfg) k \<notin> fst ` set (results_dir s)"
    using Cons.prems(4) by simp
  obtain r where rd: "results_dir s1 = results_dir s
        @ [(batch_filename (lsr_uuid cfg) k, artifact_of r (batch_length bt))]"
    and hc: "\<forall>j. has_classes (r j)"
    and link: "\<forall>j. 0 \<le> j \<and> j < batch_length bt
        \<longrightarrow> fst (r j) = remarks cfg ! nat (k * ?b + j)"
    using process_batch_artifact(1) [OF assms(1) bt [unfolded assms(3)] cur pb [unfolded r0] fresh]
    by blast
  have bs: "batches s1 = AList.update k (bt\<lparr>processed := True\<rparr>) (batches s)"
    using process_batch_artifact(2) [OF assms(1) bt [unfolded assms(3)] cur pb [unfolded r0] fresh] .
  have ne: "\<And>k'. k' \<in> set ks \<Longrightarrow> k' \<noteq> k" using Cons.prems(1) by auto
  have d: "distinct ks" using Cons.prems(1) by simp
  have sub: "set ks \<subseteq> fst ` set p" using Cons.prems(2) by simp
  have same: "\<forall>k' \<in> set ks. map_of (batches s1) k' = map_of p k'"
    using Cons.prems(3) ne by (simp add: bs update_conv')
  have fr: "\<forall>k' \<in> set ks. batch_filename (lsr_uuid cfg) k' \<notin> fst ` set (results_dir s1)"
    using Cons.prems(4) ne batch_filename_inj [of "lsr_uuid cfg"] by (auto simp: rd)
  obtain recs where rhc: "\<forall>k j. has_classes (recs k j)"
    and rrd: "results_dir s' = results_dir s1 @ map (run_artifact (lsr_uuid cfg) p recs) ks"
    and rl: "\<forall>k' \<in> set ks. \<forall>bt j. map_of p k' = Some bt \<and> 0 \<le> j \<and> j < batch_length bt
        \<longrightarrow> fst (recs k' j) = remarks cfg ! nat (k' * ?b + j)"
    using Cons.IH [OF d sub same fr l] by blast
  define recs' where "recs' = recs(k := r)"
  have other: "\<And>k'. k' \<in> set ks \<Longrightarrow> recs' k' = recs k'" using ne by (simp add: recs'_def)
  have m: "map (run_artifact (lsr_uuid cfg) p recs') ks
      = map (run_artifact (lsr_uuid cfg) p recs) ks"
    using other by (intro map_cong refl) (simp add: run_artifact_def split: option.split)
  have here: "run_artifact (lsr_uuid cfg) p recs' k
      = (batch_filename (lsr_uuid cfg) k, artifact_of r (batch_length bt))"
    by (simp add: run_artifact_def look recs'_def)
  have "results_dir s' = results_dir s @ map (run_artifact (lsr_uuid cfg) p recs') (k # ks)"
    unfolding rrd rd by (simp add: m here)
  moreover have "\<forall>k j. has_classes (recs' k j)" using rhc hc by (simp add: recs'_def)
  moreover have "\<forall>k' \<in> set (k # ks). \<forall>bt j. map_of p k' = Some bt \<and> 0 \<le> j \<and> j < batch_length bt
        \<longrightarrow> fst (recs' k' j) = remarks cfg ! nat (k' * ?b + j)"
    using rl link look other by (auto simp: recs'_def)
  ultimately show ?case by blast
qed


lemma run_then_consolidate:
  assumes "0 < BATCH_SIZE cfg" and "MAX_BATCHES cfg = 0" and "remarks cfg \<noteq> []"
    and "length lsr_reports = length (remarks cfg)"
    and "define_batches (int (length (remarks cfg))) (BATCH_SIZE cfg) = Inr p"
    and "run_driver cfg gpt (initial_state p []) = (s', None)"
  shows "\<exists>recs. consolidate True cfg lsr_reports (results_dir s')
           = Inr (Some (map (\<lambda>i. filled_row
                                (recs (int i div BATCH_SIZE cfg) (int i mod BATCH_SIZE cfg))
                                (lsr_reports ! i))
                          [0..<length lsr_reports]))
         \<and> (\<forall>k j. has_classes (recs k j))
         \<and> (\<forall>i < length lsr_reports.
              fst (recs (int i div BATCH_SIZE cfg) (int i mod BATCH_SIZE cfg)) = remarks cfg ! i)"
proof -
  let ?b = "BATCH_SIZE cfg"
  let ?n = "int (length (remarks cfg))"
  have ne: "?b \<noteq> 0" using assms(1) by simp
  have p: "p = plan_of ?n ?b"
    using assms(5) define_batches_closed [OF ne, of ?n] by simp
  have dist: "distinct (map fst p)"
    unfolding p using plan_of_ids [of ?n ?b] assms(1) by simp
  have l: "driver_loop cfg gpt (map fst p) (initial_state p []) = (s', None)"
    using assms(6) by (simp add: run_driver_def initial_state_def)
  have sub: "set (map fst p) \<subseteq> fst ` set p" by simp
  have same: "\<forall>k \<in> set (map fst p). map_of (batches (initial_state p [])) k = map_of p k"
    by (simp add: initial_state_def)
  have fresh: "\<forall>k \<in> set (map fst p).
      batch_filename (lsr_uuid cfg) k \<notin> fst ` set (results_dir (initial_state p []))"
    by (simp add: initial_state_def)
  obtain recs where hc: "\<forall>k j. has_classes (recs k j)"
    and rd: "results_dir s' = map (run_artifact (lsr_uuid cfg) p recs) (map fst p)"
    and link: "\<forall>k \<in> set (map fst p). \<forall>bt j.
        map_of p k = Some bt \<and> 0 \<le> j \<and> j < batch_length bt
        \<longrightarrow> fst (recs k j) = remarks cfg ! nat (k * ?b + j)"
    using driver_loop_artifacts [OF assms(1) assms(2) p dist sub same fresh l]
    by (auto simp: initial_state_def)
  have rep: "lsr_reports \<noteq> []" using assms(3) assms(4) by auto
  have d: "define_batches (int (length lsr_reports)) ?b = Inr p"
    using assms(5) assms(4) by simp
  have ks: "set (map fst p) = fst ` set p" by simp
  have t: "consolidate True cfg lsr_reports (results_dir s')
      = Inr (Some (map (\<lambda>i. filled_row (recs (int i div ?b) (int i mod ?b)) (lsr_reports ! i))
                     [0..<length lsr_reports]))"
    unfolding rd by (rule consolidate_artifacts [OF assms(1) rep d ks hc])
  have rows: "fst (recs (int i div ?b) (int i mod ?b)) = remarks cfg ! i"
    if i: "i < length lsr_reports" for i
  proof -
    let ?k = "int i div ?b"
    let ?j = "int i mod ?b"
    have lt: "int i < ?n" using i assms(4) by simp
    have "?k \<in> fst ` set p" unfolding p using plan_of_covers [OF assms(1) lt] .
    then obtain bt where bt: "(?k, bt) \<in> set p" by auto
    have look: "map_of p ?k = Some bt" using bt dist by simp
    have len: "batch_length bt = min ?b (?n - ?k * ?b)"
      using plan_of_entry(3) [OF _ assms(1) bt [unfolded p]] by simp
    have j0: "0 \<le> ?j" using assms(1) by simp
    have jb: "?j < ?b" using assms(1) by simp
    have e: "?k * ?b + ?j = int i" by simp
    have "?j < ?n - ?k * ?b" using e lt by linarith
    then have jl: "?j < batch_length bt" using jb len by simp
    have kin: "?k \<in> set (map fst p)" using bt by force
    have "fst (recs ?k ?j) = remarks cfg ! nat (?k * ?b + ?j)"
      using link kin look j0 jl by blast
    then show ?thesis unfolding e by simp
  qed
  show ?thesis using t hc rows by blast
qed

lemma run_then_consolidate_copy:
  assumes "0 < BATCH_SIZE cfg" and "MAX_BATCHES cfg = 0" and "remarks cfg \<noteq> []"
    and "length lsr_reports = length (remarks cfg)"
    and "define_batches (int (length (remarks cfg))) (BATCH_SIZE cfg) = Inr p"
    and "run_driver cfg gpt (initial_state p []) = (s', None)"
  shows "consolidate False cfg lsr_reports (results_dir s')
         = Inr (Some (map empty_row lsr_reports))"
proof -
  obtain t where "consolidate True cfg lsr_reports (results_dir s') = Inr (Some t)"
    using run_then_consolidate [OF assms] by blast
  then show ?thesis by (rule consolidate_copy_placeholders)
qed

section \<open>What a resumed run processes\<close>

text \<open>
  The calls of \<^verbatim>\<open>query_gpt\<close> of a classification, of the two attempts at a batch and of
  the loop body; the artifact a processed batch leaves in the directory.
\<close>

lemma queries_batch_events: "queries (batch_events w rs) = rs"
  by (induction w rs rule: batch_events.induct) (simp_all add: queries_def)

lemma queries_snoc [simp]:
  "queries (t @ [Query q]) = queries t @ [q]" "queries (t @ [Wait w]) = queries t"
  "queries (t @ [Write f]) = queries t" "queries (t @ [Skip k]) = queries t"
  by (simp_all add: queries_def)

lemma classify_loop_queries:
  "\<exists>q. prefix q rs
     \<and> queries (trace (fst (classify_loop gpt d w l t i rs acc s))) = queries (trace s) @ q"
proof (induction rs arbitrary: i acc s)
  case Nil
  then show ?case by simp
next
  case (Cons r rs)
  obtain s1 qres where q: "query_gpt gpt d r s = (s1, qres)" by (cases "query_gpt gpt d r s")
  have s1: "queries (trace s1) = queries (trace s) @ [r]"
    using q by (auto simp: query_gpt_def Let_def split: if_splits)
  have one: "prefix [r] (r # rs)" by simp
  show ?case
  proof (cases qres)
    case (Inl e)
    then show ?thesis using q s1 one by (intro exI [of _ "[r]"]) simp
  next
    case (Inr result)
    show ?thesis
    proof (cases "classify_response r result")
      case (Inl e)
      then show ?thesis using q Inr s1 one by (intro exI [of _ "[r]"]) simp
    next
      case (Inr x)
      show ?thesis
      proof (cases "l \<noteq> 0 \<and> i = l - 1")
        case True
        then show ?thesis
          using q \<open>qres = Inr result\<close> Inr s1 one by (intro exI [of _ "[r]"]) simp
      next
        case False
        let ?s2 = "if i < t - 1 then wait_timeout w s1 else s1"
        have s2: "queries (trace ?s2) = queries (trace s) @ [r]"
          using s1 by (simp add: wait_timeout_def)
        obtain q' where p: "prefix q' rs"
          and e: "queries (trace (fst (classify_loop gpt d w l t (i + 1) rs
                    (AList.update i x acc) ?s2))) = queries (trace ?s2) @ q'"
          using Cons.IH by blast
        have "prefix (r # q') (r # rs)" using p by simp
        moreover have "queries (trace (fst (classify_loop gpt d w l t i (r # rs) acc s)))
            = queries (trace s) @ r # q'"
          using q \<open>qres = Inr result\<close> Inr False e s2 by auto
        ultimately show ?thesis by blast
      qed
    qed
  qed
qed

lemma classify_lsr_remarks_queries:
  "\<exists>q. prefix q rs
     \<and> queries (trace (fst (classify_lsr_remarks gpt rs d w 0 l s))) = queries (trace s) @ q"
  using classify_loop_queries [of rs gpt d w l "int (length rs)" 0 "[]" s]
  by (simp add: classify_lsr_remarks_def)

lemma classify_lsr_remarks_all_queries:
  "classify_lsr_remarks gpt rs d w 0 0 s = (s', Inr res) \<Longrightarrow>
   queries (trace s') = queries (trace s) @ rs"
  using classify_lsr_remarks_trace [of gpt rs d w s s' res]
  by (simp add: projections_append queries_batch_events)

lemma attempt_batch_queries:
  assumes "attempt_batch cfg gpt rs s = (s1, res)"
  shows "\<exists>fa q. prefix fa rs \<and> prefix q rs
           \<and> queries (trace s1) = queries (trace s) @ fa @ q
           \<and> ((\<exists>x. res = Inr x) \<longrightarrow> q = rs)"
proof -
  let ?c = "classify_lsr_remarks gpt rs (impact_defs cfg) (WAIT_TIME cfg) 0 0"
  obtain s0 r0 where c: "?c s = (s0, r0)" by (cases "?c s")
  obtain q0 where p0: "prefix q0 rs" and e0: "queries (trace s0) = queries (trace s) @ q0"
    using classify_lsr_remarks_queries [of rs gpt "impact_defs cfg" "WAIT_TIME cfg" 0 s] c
    by auto
  have nil: "prefix [] rs" by simp
  show ?thesis
  proof (cases r0)
    case (Inr x)
    then have same: "s1 = s0" "res = Inr x" using assms c by (simp_all add: attempt_batch_def)
    have "queries (trace s1) = queries (trace s) @ [] @ rs"
      using classify_lsr_remarks_all_queries c Inr same by simp
    then show ?thesis using nil by blast
  next
    case (Inl e)
    show ?thesis
    proof (cases "caught e")
      case False
      then have "s1 = s0" "res = Inl e" using assms c Inl by (simp_all add: attempt_batch_def)
      then have "queries (trace s1) = queries (trace s) @ [] @ q0" "\<not> (\<exists>x. res = Inr x)"
        using e0 by simp_all
      then show ?thesis using nil p0 by blast
    next
      case True
      then have second: "?c (wait_timeout 10 s0) = (s1, res)"
        using assms c Inl by (simp add: attempt_batch_def)
      have w: "queries (trace (wait_timeout 10 s0)) = queries (trace s) @ q0"
        using e0 by (simp add: wait_timeout_def)
      obtain q1 where p1: "prefix q1 rs"
        and e1: "queries (trace s1) = queries (trace (wait_timeout 10 s0)) @ q1"
        using classify_lsr_remarks_queries
          [of rs gpt "impact_defs cfg" "WAIT_TIME cfg" 0 "wait_timeout 10 s0"] second
        by auto
      show ?thesis
      proof (cases res)
        case (Inl e')
        then show ?thesis using p0 p1 e1 w by auto
      next
        case (Inr x)
        have "queries (trace s1) = queries (trace (wait_timeout 10 s0)) @ rs"
          using classify_lsr_remarks_all_queries second Inr by simp
        then have "queries (trace s1) = queries (trace s) @ q0 @ rs" using w by simp
        then show ?thesis using p0 by auto
      qed
    qed
  qed
qed

lemma complete_artifact_of:
  assumes "\<forall>j. has_classes (r j)" and "\<forall>j < length rs. fst (r (int j)) = rs ! j"
  shows "complete_artifact rs (artifact_of r (int (length rs)))"
proof -
  have a: "artifact_of r (int (length rs)) = map (\<lambda>j. (py_str (int j), r (int j))) [0..<length rs]"
    by (simp add: artifact_of_def upto_int_nat comp_def)
  have "map (\<lambda>x. fst (snd x)) (artifact_of r (int (length rs)))
      = map (\<lambda>j. rs ! j) [0..<length rs]"
    unfolding a using assms(2) by (simp add: comp_def)
  then have "map (\<lambda>x. fst (snd x)) (artifact_of r (int (length rs))) = rs"
    by (simp add: map_nth)
  moreover have "map fst (artifact_of r (int (length rs)))
      = map (\<lambda>j. py_str (int j)) [0..<length rs]"
    unfolding a by (simp add: comp_def)
  moreover have "list_all (\<lambda>x. has_classes (snd x)) (artifact_of r (int (length rs)))"
    unfolding a using assms(1) by (simp add: list_all_iff)
  ultimately show ?thesis by (simp add: complete_artifact_def)
qed


lemma projections_single [simp]:
  "queries [Write f] = []" "queries [Skip k] = []" "queries [Wait w] = []"
  "queries [Query q] = [q]"
  "writes [Write f] = [f]" "writes [Skip k] = []" "writes [Wait w] = []" "writes [Query q] = []"
  "skips [Write f] = []" "skips [Skip k] = [k]" "skips [Wait w] = []" "skips [Query q] = []"
  by (simp_all add: queries_def writes_def skips_def)

lemma process_batch_step:
  assumes "map_of (batches s) k = Some b" and "process_batch cfg gpt k s = (s1, r1)"
  shows "\<exists>fa tl. prefix fa (pending_remarks cfg (batches s) k)
      \<and> set tl \<subseteq> set (pending_remarks cfg (batches s) k)
      \<and> writes (trace s1) = writes (trace s)
          @ (if \<not> processed b \<and> r1 = None then [batch_path cfg k] else [])
      \<and> skips (trace s1) = skips (trace s) @ (if processed b then [k] else [])
      \<and> queries (trace s1) = queries (trace s)
          @ (if r1 = None then fa @ pending_remarks cfg (batches s) k else tl)
      \<and> batches s1 = (if \<not> processed b \<and> r1 = None
                       then AList.update k (b\<lparr>processed := True\<rparr>) (batches s)
                       else batches s)
      \<and> (processed b \<longrightarrow> r1 = None \<and> results_dir s1 = results_dir s)
      \<and> (r1 \<noteq> None \<longrightarrow> results_dir s1 = results_dir s)
      \<and> (\<not> processed b \<and> r1 = None \<longrightarrow>
            (\<exists>a. results_dir s1
                   = AList.update (batch_filename (lsr_uuid cfg) k) a (results_dir s)
                \<and> complete_artifact (pending_remarks cfg (batches s) k) a))"
proof (cases "processed b")
  case True
  have s1: "s1 = s\<lparr>batches_skipped := batches_skipped s + 1, trace := trace s @ [Skip k],
        processed_lsrs := None\<rparr>" and r1: "r1 = None"
    using process_batch_processed [OF assms(1) True, of cfg gpt] assms(2) by simp_all
  have pr: "pending_remarks cfg (batches s) k = []"
    using assms(1) True by (simp add: pending_remarks_def)
  have "writes (trace s1) = writes (trace s)" "skips (trace s1) = skips (trace s) @ [k]"
    "queries (trace s1) = queries (trace s)" "batches s1 = batches s"
    "results_dir s1 = results_dir s"
    by (simp_all add: s1 projections_append)
  then show ?thesis using True r1 pr
    by (intro exI [of _ "[]"]) simp
next
  case False
  let ?rs = "batch_remarks cfg b"
  have pr: "pending_remarks cfg (batches s) k = ?rs"
    using assms(1) False by (simp add: pending_remarks_def)
  obtain s0 res where a: "attempt_batch cfg gpt ?rs s = (s0, res)"
    by (cases "attempt_batch cfg gpt ?rs s")
  have f: "frame s s0" using frame_attempt_batch [of s cfg gpt ?rs] a by simp
  obtain t where t: "trace s0 = trace s @ t" and c: "\<forall>e \<in> set t. classify_event ?rs e"
    using attempt_batch_events [of cfg gpt ?rs s] a by auto
  have w0: "writes (trace s0) = writes (trace s)" and k0: "skips (trace s0) = skips (trace s)"
    using projections_classify(1,2) [OF c] by (simp_all add: t projections_append)
  obtain fa q where pf: "prefix fa ?rs" and pq: "prefix q ?rs"
    and qs: "queries (trace s0) = queries (trace s) @ fa @ q"
    and full: "(\<exists>x. res = Inr x) \<longrightarrow> q = ?rs"
    using attempt_batch_queries [OF a] by blast
  show ?thesis
  proof (cases res)
    case (Inl e)
    then have s1: "s1 = s0" and r1: "r1 = Some e"
      using assms a False by (auto simp: process_batch_def batch_remarks_def)
    have sub: "set (fa @ q) \<subseteq> set ?rs" using pf pq by (auto dest: set_mono_prefix)
    have nil: "prefix [] ?rs" by simp
    show ?thesis
      unfolding pr using False r1 sub nil w0 k0 qs f
      by (intro exI [of _ "[]"] exI [of _ "fa @ q"]) (simp add: s1 frame_def)
  next
    case (Inr results)
    then have s1: "s1 = complete_batch cfg k b results s0" and r1: "r1 = None"
      using assms a False by (auto simp: process_batch_def batch_remarks_def)
    have q: "q = ?rs" using full Inr by simp
    obtain r where jd: "json_dump results = artifact_of r (int (length ?rs))"
      and hc: "\<forall>j. has_classes (r j)" and lk: "\<forall>j < length ?rs. fst (r (int j)) = ?rs ! j"
      using attempt_batch_artifact [OF a [unfolded Inr]] by blast
    have ca: "complete_artifact ?rs (json_dump results)"
      unfolding jd using hc lk by (rule complete_artifact_of)
    have "writes (trace s1) = writes (trace s) @ [batch_path cfg k]"
      "skips (trace s1) = skips (trace s)"
      "queries (trace s1) = queries (trace s) @ fa @ ?rs"
      "batches s1 = AList.update k (b\<lparr>processed := True\<rparr>) (batches s)"
      "results_dir s1 = AList.update (batch_filename (lsr_uuid cfg) k) (json_dump results)
          (results_dir s)"
      using w0 k0 qs q f
      by (simp_all add: s1 complete_batch_def projections_append batch_path_def frame_def)
    then show ?thesis
      unfolding pr using False r1 pf ca
      by (intro exI [of _ fa] exI [of _ "[]"]) auto
  qed
qed

lemma visited_prefix: "prefix (visited cfg ks) ks"
  by (induction ks) auto


lemma process_batch_dir_other:
  assumes "n \<noteq> batch_filename (lsr_uuid cfg) k"
  shows "map_of (results_dir (fst (process_batch cfg gpt k s))) n = map_of (results_dir s) n"
proof (cases "map_of (batches s) k")
  case None
  then show ?thesis by (simp add: process_batch_def)
next
  case (Some b)
  obtain s1 r1 where p: "process_batch cfg gpt k s = (s1, r1)"
    by (cases "process_batch cfg gpt k s")
  have "results_dir s1 = results_dir s
      \<or> (\<exists>a. results_dir s1 = AList.update (batch_filename (lsr_uuid cfg) k) a (results_dir s))"
    using process_batch_step [OF Some p] by (cases "processed b"; cases r1) auto
  then show ?thesis using assms p by (auto simp: update_conv')
qed

lemma driver_loop_dir_other:
  "n \<notin> batch_filename (lsr_uuid cfg) ` set ks \<Longrightarrow>
   map_of (results_dir (fst (driver_loop cfg gpt ks s))) n = map_of (results_dir s) n"
proof (induction ks arbitrary: s)
  case Nil
  then show ?case by simp
next
  case (Cons k ks)
  obtain s1 r1 where p: "process_batch cfg gpt k s = (s1, r1)"
    by (cases "process_batch cfg gpt k s")
  have ne: "n \<noteq> batch_filename (lsr_uuid cfg) k" using Cons.prems by auto
  have one: "map_of (results_dir s1) n = map_of (results_dir s) n"
    using process_batch_dir_other [OF ne, of gpt s] p by simp
  have rest: "map_of (results_dir (fst (driver_loop cfg gpt ks s1))) n = map_of (results_dir s1) n"
    using Cons.IH [of s1] Cons.prems by auto
  show ?case using p one rest by (cases r1) auto
qed

lemma pending_remarks_prefix_nil:
  "is_processed p k \<Longrightarrow> pending_remarks cfg p k = []"
  by (auto simp: is_processed_def pending_remarks_def split: option.splits)

lemma driver_loop_report:
  "distinct ks \<Longrightarrow> set ks \<subseteq> fst ` set (batches s) \<Longrightarrow>
   driver_loop cfg gpt ks s = (s', r) \<Longrightarrow>
   \<exists>ws sk fa tl.
      prefix ws (filter (\<lambda>k. \<not> is_processed (batches s) k) ks)
    \<and> prefix sk (filter (is_processed (batches s)) ks)
    \<and> writes (trace s') = writes (trace s) @ map (batch_path cfg) ws
    \<and> skips (trace s') = skips (trace s) @ sk
    \<and> queries (trace s') = queries (trace s)
        @ concat (map (\<lambda>k. fa k @ pending_remarks cfg (batches s) k) ws) @ tl
    \<and> (\<forall>k. prefix (fa k) (pending_remarks cfg (batches s) k))
    \<and> set tl \<subseteq> set (concat (map (pending_remarks cfg (batches s)) ks))
    \<and> (r = None \<longrightarrow> tl = []
          \<and> ws = filter (\<lambda>k. \<not> is_processed (batches s) k) (visited cfg ks)
          \<and> sk = filter (is_processed (batches s)) (visited cfg ks))
    \<and> (\<forall>k \<in> set ws.
          (\<exists>a. map_of (results_dir s') (batch_filename (lsr_uuid cfg) k) = Some a
               \<and> complete_artifact (pending_remarks cfg (batches s) k) a)
          \<and> is_processed (batches s') k)"
proof (induction ks arbitrary: s)
  case Nil
  then show ?case by (intro exI [of _ "[]"] exI [of _ "\<lambda>k. []"]) simp
next
  case (Cons k ks)
  let ?P = "is_processed (batches s)"
  let ?rem = "pending_remarks cfg (batches s)"
  let ?fn = "batch_filename (lsr_uuid cfg)"
  from Cons.prems(2) obtain b where b: "map_of (batches s) k = Some b"
    by (cases "map_of (batches s) k") (auto simp: map_of_eq_None_iff)
  have Pk: "?P k = processed b" using b by (simp add: is_processed_def)
  obtain s1 r1 where p: "process_batch cfg gpt k s = (s1, r1)"
    by (cases "process_batch cfg gpt k s")
  obtain fa0 tl0 where f0: "prefix fa0 (?rem k)" and t0: "set tl0 \<subseteq> set (?rem k)"
    and w1: "writes (trace s1) = writes (trace s)
          @ (if \<not> processed b \<and> r1 = None then [batch_path cfg k] else [])"
    and k1: "skips (trace s1) = skips (trace s) @ (if processed b then [k] else [])"
    and q1: "queries (trace s1) = queries (trace s)
          @ (if r1 = None then fa0 @ ?rem k else tl0)"
    and b1: "batches s1 = (if \<not> processed b \<and> r1 = None
                       then AList.update k (b\<lparr>processed := True\<rparr>) (batches s)
                       else batches s)"
    and pr1: "processed b \<longrightarrow> r1 = None \<and> results_dir s1 = results_dir s"
    and a1: "\<not> processed b \<and> r1 = None \<longrightarrow>
            (\<exists>a. results_dir s1 = AList.update (?fn k) a (results_dir s)
                \<and> complete_artifact (?rem k) a)"
    using process_batch_step [OF b p] by blast
  have remP: "processed b \<Longrightarrow> ?rem k = []" "processed b \<Longrightarrow> fa0 = []"
    using f0 pending_remarks_prefix_nil [of "batches s" k cfg] Pk by auto
  define w0 where "w0 = (if \<not> processed b \<and> r1 = None then [k] else [])"
  define sk0 where "sk0 = (if processed b then [k] else [])"
  have w0p: "prefix w0 (filter (\<lambda>k. \<not> ?P k) (k # ks))"
    and sk0p: "prefix sk0 (filter ?P (k # ks))"
    by (auto simp: w0_def sk0_def Pk)
  have w1': "writes (trace s1) = writes (trace s) @ map (batch_path cfg) w0"
    and k1': "skips (trace s1) = skips (trace s) @ sk0"
    using w1 k1 by (simp_all add: w0_def sk0_def)
  have here: "\<forall>k' \<in> set w0.
      (\<exists>a. map_of (results_dir s1) (?fn k') = Some a \<and> complete_artifact (?rem k') a)
      \<and> is_processed (batches s1) k'"
    using a1 b1 by (auto simp: w0_def update_conv' is_processed_def)
  show ?case
  proof (cases "r1 = None \<and> \<not> (MAX_BATCHES cfg \<noteq> 0 \<and> k = MAX_BATCHES cfg)")
    case False
    then have res: "s' = s1" "r = r1" using Cons.prems(3) p by (cases r1; auto)+
    define fa where "fa = (\<lambda>k'. if k' = k then fa0 else [])"
    define tl where "tl = (if r1 = None then [] else tl0)"
    have fap: "\<forall>k'. prefix (fa k') (?rem k')" using f0 by (simp add: fa_def)
    have q: "queries (trace s') = queries (trace s)
        @ concat (map (\<lambda>k. fa k @ ?rem k) w0) @ tl"
      using q1 remP by (auto simp: res w0_def fa_def tl_def)
    have tls: "set tl \<subseteq> set (concat (map ?rem (k # ks)))"
      using t0 by (auto simp: tl_def)
    have fin: "r = None \<longrightarrow> tl = []
          \<and> w0 = filter (\<lambda>k. \<not> ?P k) (visited cfg (k # ks))
          \<and> sk0 = filter ?P (visited cfg (k # ks))"
      using False by (auto simp: res tl_def w0_def sk0_def Pk)
    show ?thesis
      using w0p sk0p w1' k1' q fap tls fin here unfolding res by blast
  next
    case True
    then have r1: "r1 = None" and nc: "\<not> (MAX_BATCHES cfg \<noteq> 0 \<and> k = MAX_BATCHES cfg)"
      by simp_all
    have l: "driver_loop cfg gpt ks s1 = (s', r)"
      using Cons.prems(3) p True by auto
    have keys: "map fst (batches s1) = map fst (batches s)"
      using process_batch_monotone [of s cfg gpt k] p by simp
    have d: "distinct ks" using Cons.prems(1) by simp
    have sub: "set ks \<subseteq> fst ` set (batches s1)"
      using Cons.prems(2) keys by (metis insert_subset list.simps(15) set_map)
    have oth: "is_processed (batches s1) k' = ?P k'"
      "pending_remarks cfg (batches s1) k' = ?rem k'" if "k' \<noteq> k" for k'
      using that b1 by (simp_all add: is_processed_update_other)
    have ne: "\<And>k'. k' \<in> set ks \<Longrightarrow> k' \<noteq> k" using Cons.prems(1) by auto
    have f1: "filter (\<lambda>k. \<not> is_processed (batches s1) k) xs = filter (\<lambda>k. \<not> ?P k) xs"
      and f2: "filter (is_processed (batches s1)) xs = filter ?P xs"
      and f3: "map (pending_remarks cfg (batches s1)) xs = map ?rem xs"
      if "set xs \<subseteq> set ks" for xs
      using that oth ne by (auto intro!: filter_cong map_cong)
    have vis: "set (visited cfg ks) \<subseteq> set ks"
      using visited_prefix [of cfg ks] by (rule set_mono_prefix)
    obtain ws sk fa tl where
      pw: "prefix ws (filter (\<lambda>k. \<not> ?P k) ks)"
      and ps: "prefix sk (filter ?P ks)"
      and w: "writes (trace s') = writes (trace s1) @ map (batch_path cfg) ws"
      and sks: "skips (trace s') = skips (trace s1) @ sk"
      and q: "queries (trace s') = queries (trace s1)
          @ concat (map (\<lambda>k. fa k @ pending_remarks cfg (batches s1) k) ws) @ tl"
      and fap: "\<forall>k. prefix (fa k) (pending_remarks cfg (batches s1) k)"
      and tls: "set tl \<subseteq> set (concat (map ?rem ks))"
      and fin: "r = None \<longrightarrow> tl = []
          \<and> ws = filter (\<lambda>k. \<not> ?P k) (visited cfg ks)
          \<and> sk = filter ?P (visited cfg ks)"
      and arts: "\<forall>k \<in> set ws.
          (\<exists>a. map_of (results_dir s') (?fn k) = Some a
               \<and> complete_artifact (pending_remarks cfg (batches s1) k) a)
          \<and> is_processed (batches s') k"
      using Cons.IH [OF d sub l] f1 [of ks] f2 [of ks] f3 [of ks] f1 [OF vis] f2 [OF vis]
      by auto
    have "set ws \<subseteq> set (filter (\<lambda>k. \<not> ?P k) ks)" using pw by (rule set_mono_prefix)
    then have wsks: "set ws \<subseteq> set ks" by auto
    define fa' where "fa' = fa(k := fa0)"
    have fa'o: "\<And>k'. k' \<in> set ws \<Longrightarrow> fa' k' = fa k'" using wsks ne by (auto simp: fa'_def)
    have m: "map (\<lambda>k. fa' k @ ?rem k) ws
        = map (\<lambda>k. fa k @ pending_remarks cfg (batches s1) k) ws"
      using fa'o oth(2) wsks ne by (intro map_cong refl) auto
    have c1: "prefix (w0 @ ws) (filter (\<lambda>k. \<not> ?P k) (k # ks))"
      using pw by (auto simp: w0_def Pk r1)
    have c2: "prefix (sk0 @ sk) (filter ?P (k # ks))"
      using ps by (auto simp: sk0_def Pk)
    have c3: "writes (trace s') = writes (trace s) @ map (batch_path cfg) (w0 @ ws)"
      using w w1' by simp
    have c4: "skips (trace s') = skips (trace s) @ (sk0 @ sk)"
      using sks k1' by simp
    have "concat (map (\<lambda>k. fa' k @ ?rem k) w0) = fa0 @ ?rem k"
      using remP by (auto simp: w0_def fa'_def r1)
    then have c5: "queries (trace s') = queries (trace s)
        @ concat (map (\<lambda>k. fa' k @ ?rem k) (w0 @ ws)) @ tl"
      using q q1 r1 by (simp add: m)
    have c6: "\<forall>k'. prefix (fa' k') (?rem k')"
    proof
      fix k'
      show "prefix (fa' k') (?rem k')"
      proof (cases "k' = k")
        case True
        then show ?thesis using f0 by (simp add: fa'_def)
      next
        case False
        have "prefix (fa k') (pending_remarks cfg (batches s1) k')" using fap by blast
        then show ?thesis using False oth(2) [OF False] by (simp add: fa'_def)
      qed
    qed
    have c7: "set tl \<subseteq> set (concat (map ?rem (k # ks)))" using tls by auto
    have c8: "r = None \<longrightarrow> tl = []
          \<and> w0 @ ws = filter (\<lambda>k. \<not> ?P k) (visited cfg (k # ks))
          \<and> sk0 @ sk = filter ?P (visited cfg (k # ks))"
      using fin nc by (auto simp: w0_def sk0_def Pk r1)
    have fresh: "?fn k \<notin> ?fn ` set ks"
      using ne batch_filename_inj [of "lsr_uuid cfg"] by auto
    have keep: "map_of (results_dir s') (?fn k) = map_of (results_dir s1) (?fn k)"
      using driver_loop_dir_other [OF fresh, of gpt s1] l by simp
    have mono: "processed_ids (batches s1) \<subseteq> processed_ids (batches s')"
      using driver_loop_monotone [of s1 cfg gpt ks] l by simp
    have c9: "\<forall>k' \<in> set (w0 @ ws).
          (\<exists>a. map_of (results_dir s') (?fn k') = Some a \<and> complete_artifact (?rem k') a)
          \<and> is_processed (batches s') k'"
    proof
      fix k' assume "k' \<in> set (w0 @ ws)"
      then consider "k' \<in> set w0" | "k' \<in> set ws" by auto
      then show "(\<exists>a. map_of (results_dir s') (?fn k') = Some a \<and> complete_artifact (?rem k') a)
          \<and> is_processed (batches s') k'"
      proof cases
        case 1
        then have e: "k' = k" by (auto simp: w0_def split: if_splits)
        have "is_processed (batches s1) k" using here 1 e by auto
        then have "is_processed (batches s') k" using mono by (auto simp: is_processed_ids)
        then show ?thesis using here 1 keep e by auto
      next
        case 2
        then have "k' \<noteq> k" using wsks ne by auto
        then show ?thesis using arts 2 oth(2) by auto
      qed
    qed
    show ?thesis
      using c1 c2 c3 c4 c5 c6 c7 c8 c9 by blast
  qed
qed


lemma visited_all: "MAX_BATCHES cfg = 0 \<Longrightarrow> visited cfg ks = ks"
  by (induction ks) simp_all

text \<open>
  Claim C1. The plan has each id once. Whatever the service does and however the run
  ends:

  \<^item> the artifacts written are those of the first so many batches that were not
    processed at the start, in the order of the plan, and the batches skipped are
    among those that were processed;
  \<^item> the calls of \<open>query_gpt\<close> are, for each batch whose artifact was written and in
    that order, all the remarks of the batch in their order, after the calls of a
    first attempt that a caught exception ended (a beginning of the same remarks),
    and at the end the calls for the batch at which an exception ended the run; so
    no call is made for a processed batch, and every call carries a remark of a batch
    that was not processed;
  \<^item> for each batch whose artifact was written, the directory holds under the name
    of the batch an artifact with one record for every remark of the batch, under
    the text of its position, with the remark and the five classes, and the batch is
    processed in the plan at the end;
  \<^item> when the run returns (no exception ends it), the batches written and skipped are
    exactly the batches not processed and processed among those the loop visits,
    which are all batches when there is no ceiling.

  In particular, in a run that returns with no ceiling on the number of batches, the
  artifacts written are exactly those of all the batches that were not processed, each
  complete as above, the calls are exactly the remarks of these batches (after the
  calls of first attempts), the batches skipped are exactly those that were processed,
  at the end every batch is processed, and the two counters have advanced by the
  numbers of batches processed and skipped. Whatever the state, the loop body for a
  processed batch only counts and records the skip.
\<close>

theorem resume_processes_pending_batches:
  assumes "distinct (map fst (batches s))"
  shows "(\<exists>ws sk fa tl.
            prefix ws (filter (\<lambda>k. \<not> is_processed (batches s) k) (map fst (batches s)))
          \<and> prefix sk (filter (is_processed (batches s)) (map fst (batches s)))
          \<and> writes (trace (fst (run_driver cfg gpt s)))
              = writes (trace s) @ map (batch_path cfg) ws
          \<and> skips (trace (fst (run_driver cfg gpt s))) = skips (trace s) @ sk
          \<and> queries (trace (fst (run_driver cfg gpt s)))
              = queries (trace s)
                @ concat (map (\<lambda>k. fa k @ pending_remarks cfg (batches s) k) ws) @ tl
          \<and> (\<forall>k. prefix (fa k) (pending_remarks cfg (batches s) k))
          \<and> set tl \<subseteq> set (concat (map (pending_remarks cfg (batches s))
                                     (map fst (batches s))))
          \<and> (snd (run_driver cfg gpt s) = None \<longrightarrow>
                tl = []
              \<and> ws = filter (\<lambda>k. \<not> is_processed (batches s) k)
                       (visited cfg (map fst (batches s)))
              \<and> sk = filter (is_processed (batches s)) (visited cfg (map fst (batches s))))
          \<and> (\<forall>k \<in> set ws.
                (\<exists>a. map_of (results_dir (fst (run_driver cfg gpt s)))
                        (batch_filename (lsr_uuid cfg) k) = Some a
                     \<and> complete_artifact (pending_remarks cfg (batches s) k) a)
                \<and> is_processed (batches (fst (run_driver cfg gpt s))) k)
          \<and> set (queries (trace (fst (run_driver cfg gpt s))))
              \<subseteq> set (queries (trace s))
                \<union> set (concat (map (pending_remarks cfg (batches s))
                                  (map fst (batches s)))))
       \<and> (MAX_BATCHES cfg = 0 \<and> snd (run_driver cfg gpt s) = None \<longrightarrow>
            writes (trace (fst (run_driver cfg gpt s))) = writes (trace s)
              @ map (batch_path cfg)
                  (filter (\<lambda>k. \<not> is_processed (batches s) k) (map fst (batches s)))
            \<and> skips (trace (fst (run_driver cfg gpt s))) = skips (trace s)
              @ filter (is_processed (batches s)) (map fst (batches s))
            \<and> (\<exists>fa. (\<forall>k. prefix (fa k) (pending_remarks cfg (batches s) k))
                  \<and> queries (trace (fst (run_driver cfg gpt s))) = queries (trace s)
                      @ concat (map (\<lambda>k. fa k @ pending_remarks cfg (batches s) k)
                                  (filter (\<lambda>k. \<not> is_processed (batches s) k)
                                     (map fst (batches s)))))
            \<and> (\<forall>k \<in> set (map fst (batches s)). \<not> is_processed (batches s) k \<longrightarrow>
                  (\<exists>a. map_of (results_dir (fst (run_driver cfg gpt s)))
                          (batch_filename (lsr_uuid cfg) k) = Some a
                       \<and> complete_artifact (pending_remarks cfg (batches s) k) a))
            \<and> processed_ids (batches (fst (run_driver cfg gpt s))) = fst ` set (batches s)
            \<and> batches_processed (fst (run_driver cfg gpt s)) = batches_processed s
              + int (length (filter (\<lambda>k. \<not> is_processed (batches s) k)
                               (map fst (batches s))))
            \<and> batches_skipped (fst (run_driver cfg gpt s)) = batches_skipped s
              + int (length (filter (is_processed (batches s)) (map fst (batches s)))))
       \<and> (\<forall>k b s0. map_of (batches s0) k = Some b \<and> processed b \<longrightarrow>
             process_batch cfg gpt k s0 =
               (s0\<lparr>batches_skipped := batches_skipped s0 + 1, trace := trace s0 @ [Skip k],
                   processed_lsrs := None\<rparr>, None))"
proof -
  let ?ks = "map fst (batches s)"
  let ?s' = "fst (run_driver cfg gpt s)"
  let ?r = "snd (run_driver cfg gpt s)"
  let ?rem = "pending_remarks cfg (batches s)"
  let ?pend = "filter (\<lambda>k. \<not> is_processed (batches s) k)"
  let ?fn = "batch_filename (lsr_uuid cfg)"
  have sub: "set ?ks \<subseteq> fst ` set (batches s)" by simp
  have l: "driver_loop cfg gpt ?ks s = (?s', ?r)" by (simp add: run_driver_def)
  from driver_loop_report [OF assms sub l]
  obtain ws where "\<exists>sk fa tl. (prefix ws (?pend ?ks))
        \<and> (prefix sk (filter (is_processed (batches s)) ?ks))
        \<and> (writes (trace ?s') = writes (trace s) @ map (batch_path cfg) ws)
        \<and> (skips (trace ?s') = skips (trace s) @ sk)
        \<and> (queries (trace ?s') = queries (trace s)
        @ concat (map (\<lambda>k. fa k @ ?rem k) ws) @ tl)
        \<and> (\<forall>k. prefix (fa k) (?rem k))
        \<and> (set tl \<subseteq> set (concat (map ?rem ?ks)))
        \<and> (?r = None \<longrightarrow> tl = [] \<and> ws = ?pend (visited cfg ?ks)
        \<and> sk = filter (is_processed (batches s)) (visited cfg ?ks))
        \<and> (\<forall>k \<in> set ws.
        (\<exists>a. map_of (results_dir ?s') (?fn k) = Some a \<and> complete_artifact (?rem k) a)
        \<and> is_processed (batches ?s') k)" ..
  then obtain sk where "\<exists>fa tl. (prefix ws (?pend ?ks))
        \<and> (prefix sk (filter (is_processed (batches s)) ?ks))
        \<and> (writes (trace ?s') = writes (trace s) @ map (batch_path cfg) ws)
        \<and> (skips (trace ?s') = skips (trace s) @ sk)
        \<and> (queries (trace ?s') = queries (trace s)
        @ concat (map (\<lambda>k. fa k @ ?rem k) ws) @ tl)
        \<and> (\<forall>k. prefix (fa k) (?rem k))
        \<and> (set tl \<subseteq> set (concat (map ?rem ?ks)))
        \<and> (?r = None \<longrightarrow> tl = [] \<and> ws = ?pend (visited cfg ?ks)
        \<and> sk = filter (is_processed (batches s)) (visited cfg ?ks))
        \<and> (\<forall>k \<in> set ws.
        (\<exists>a. map_of (results_dir ?s') (?fn k) = Some a \<and> complete_artifact (?rem k) a)
        \<and> is_processed (batches ?s') k)" ..
  then obtain fa where "\<exists>tl. (prefix ws (?pend ?ks))
        \<and> (prefix sk (filter (is_processed (batches s)) ?ks))
        \<and> (writes (trace ?s') = writes (trace s) @ map (batch_path cfg) ws)
        \<and> (skips (trace ?s') = skips (trace s) @ sk)
        \<and> (queries (trace ?s') = queries (trace s)
        @ concat (map (\<lambda>k. fa k @ ?rem k) ws) @ tl)
        \<and> (\<forall>k. prefix (fa k) (?rem k))
        \<and> (set tl \<subseteq> set (concat (map ?rem ?ks)))
        \<and> (?r = None \<longrightarrow> tl = [] \<and> ws = ?pend (visited cfg ?ks)
        \<and> sk = filter (is_processed (batches s)) (visited cfg ?ks))
        \<and> (\<forall>k \<in> set ws.
        (\<exists>a. map_of (results_dir ?s') (?fn k) = Some a \<and> complete_artifact (?rem k) a)
        \<and> is_processed (batches ?s') k)" ..
  then obtain tl where big: "(prefix ws (?pend ?ks))
        \<and> (prefix sk (filter (is_processed (batches s)) ?ks))
        \<and> (writes (trace ?s') = writes (trace s) @ map (batch_path cfg) ws)
        \<and> (skips (trace ?s') = skips (trace s) @ sk)
        \<and> (queries (trace ?s') = queries (trace s)
        @ concat (map (\<lambda>k. fa k @ ?rem k) ws) @ tl)
        \<and> (\<forall>k. prefix (fa k) (?rem k))
        \<and> (set tl \<subseteq> set (concat (map ?rem ?ks)))
        \<and> (?r = None \<longrightarrow> tl = [] \<and> ws = ?pend (visited cfg ?ks)
        \<and> sk = filter (is_processed (batches s)) (visited cfg ?ks))
        \<and> (\<forall>k \<in> set ws.
        (\<exists>a. map_of (results_dir ?s') (?fn k) = Some a \<and> complete_artifact (?rem k) a)
        \<and> is_processed (batches ?s') k)" ..
  have pw: "prefix ws (?pend ?ks)"
    using big by blast
  have ps: "prefix sk (filter (is_processed (batches s)) ?ks)"
    using big by blast
  have w: "writes (trace ?s') = writes (trace s) @ map (batch_path cfg) ws"
    using big by blast
  have sks: "skips (trace ?s') = skips (trace s) @ sk"
    using big by blast
  have q: "queries (trace ?s') = queries (trace s)
        @ concat (map (\<lambda>k. fa k @ ?rem k) ws) @ tl"
    using big by blast
  have fap: "\<forall>k. prefix (fa k) (?rem k)"
    using big by blast
  have tls: "set tl \<subseteq> set (concat (map ?rem ?ks))"
    using big by blast
  have fin: "?r = None \<longrightarrow> tl = [] \<and> ws = ?pend (visited cfg ?ks)
        \<and> sk = filter (is_processed (batches s)) (visited cfg ?ks)"
    using big by blast
  have arts: "\<forall>k \<in> set ws.
        (\<exists>a. map_of (results_dir ?s') (?fn k) = Some a \<and> complete_artifact (?rem k) a)
        \<and> is_processed (batches ?s') k"
    using big by blast
  have "set ws \<subseteq> set (?pend ?ks)" using pw by (rule set_mono_prefix)
  then have wsks: "set ws \<subseteq> set ?ks" by auto
  have fas: "set (fa k) \<subseteq> set (?rem k)" for k
    using fap set_mono_prefix [of "fa k" "?rem k"] by blast
  have "set (concat (map (\<lambda>k. fa k @ ?rem k) ws)) \<subseteq> set (concat (map ?rem ?ks))"
    using wsks fas by fastforce
  then have qsub: "set (queries (trace ?s'))
      \<subseteq> set (queries (trace s)) \<union> set (concat (map ?rem ?ks))"
    using q tls by auto
  have U: "\<exists>ws sk fa tl.
            prefix ws (?pend ?ks)
          \<and> prefix sk (filter (is_processed (batches s)) ?ks)
          \<and> writes (trace ?s') = writes (trace s) @ map (batch_path cfg) ws
          \<and> skips (trace ?s') = skips (trace s) @ sk
          \<and> queries (trace ?s') = queries (trace s)
                @ concat (map (\<lambda>k. fa k @ ?rem k) ws) @ tl
          \<and> (\<forall>k. prefix (fa k) (?rem k))
          \<and> set tl \<subseteq> set (concat (map ?rem ?ks))
          \<and> (?r = None \<longrightarrow> tl = [] \<and> ws = ?pend (visited cfg ?ks)
              \<and> sk = filter (is_processed (batches s)) (visited cfg ?ks))
          \<and> (\<forall>k \<in> set ws.
                (\<exists>a. map_of (results_dir ?s') (?fn k) = Some a
                     \<and> complete_artifact (?rem k) a)
                \<and> is_processed (batches ?s') k)
          \<and> set (queries (trace ?s'))
              \<subseteq> set (queries (trace s)) \<union> set (concat (map ?rem ?ks))"
    apply (rule exI [of _ ws], rule exI [of _ sk], rule exI [of _ fa], rule exI [of _ tl])
    by (intro conjI pw ps w sks q fap tls fin arts qsub)
  have N: "writes (trace ?s') = writes (trace s) @ map (batch_path cfg) (?pend ?ks)
            \<and> skips (trace ?s') = skips (trace s)
              @ filter (is_processed (batches s)) ?ks
            \<and> (\<exists>fa. (\<forall>k. prefix (fa k) (?rem k))
                  \<and> queries (trace ?s') = queries (trace s)
                      @ concat (map (\<lambda>k. fa k @ ?rem k) (?pend ?ks)))
            \<and> (\<forall>k \<in> set ?ks. \<not> is_processed (batches s) k \<longrightarrow>
                  (\<exists>a. map_of (results_dir ?s') (?fn k) = Some a
                       \<and> complete_artifact (?rem k) a))
            \<and> processed_ids (batches ?s') = fst ` set (batches s)
            \<and> batches_processed ?s' = batches_processed s + int (length (?pend ?ks))
            \<and> batches_skipped ?s' = batches_skipped s
              + int (length (filter (is_processed (batches s)) ?ks))"
    if m: "MAX_BATCHES cfg = 0" and n: "?r = None"
  proof -
    have r: "run_driver cfg gpt s = (?s', None)"
      using n by (metis prod.collapse)
    note R = run_driver_resume [OF m assms r]
    have all: "ws = ?pend ?ks" "tl = []" using fin n visited_all [OF m] by simp_all
    have q': "queries (trace ?s') = queries (trace s)
        @ concat (map (\<lambda>k. fa k @ ?rem k) (?pend ?ks))"
      using q all by simp
    have a': "\<forall>k \<in> set ?ks. \<not> is_processed (batches s) k \<longrightarrow>
        (\<exists>a. map_of (results_dir ?s') (?fn k) = Some a \<and> complete_artifact (?rem k) a)"
      using arts all(1) by auto
    have qf: "\<exists>fa. (\<forall>k. prefix (fa k) (?rem k))
        \<and> queries (trace ?s') = queries (trace s)
            @ concat (map (\<lambda>k. fa k @ ?rem k) (?pend ?ks))"
      using fap q' by blast
    have A: "writes (trace ?s') = writes (trace s) @ map (batch_path cfg) (?pend ?ks)"
      and B: "skips (trace ?s') = skips (trace s) @ filter (is_processed (batches s)) ?ks"
      and D: "processed_ids (batches ?s') = fst ` set (batches s)"
      and E: "batches_processed ?s' = batches_processed s + int (length (?pend ?ks))"
      and F: "batches_skipped ?s' = batches_skipped s
              + int (length (filter (is_processed (batches s)) ?ks))"
      using R by blast+
    show ?thesis by (intro conjI A B qf a' D E F)
  qed
  have N': "MAX_BATCHES cfg = 0 \<and> ?r = None \<longrightarrow>
      writes (trace ?s') = writes (trace s) @ map (batch_path cfg) (?pend ?ks)
            \<and> skips (trace ?s') = skips (trace s)
              @ filter (is_processed (batches s)) ?ks
            \<and> (\<exists>fa. (\<forall>k. prefix (fa k) (?rem k))
                  \<and> queries (trace ?s') = queries (trace s)
                      @ concat (map (\<lambda>k. fa k @ ?rem k) (?pend ?ks)))
            \<and> (\<forall>k \<in> set ?ks. \<not> is_processed (batches s) k \<longrightarrow>
                  (\<exists>a. map_of (results_dir ?s') (?fn k) = Some a
                       \<and> complete_artifact (?rem k) a))
            \<and> processed_ids (batches ?s') = fst ` set (batches s)
            \<and> batches_processed ?s' = batches_processed s + int (length (?pend ?ks))
            \<and> batches_skipped ?s' = batches_skipped s
              + int (length (filter (is_processed (batches s)) ?ks))"
  proof (intro impI)
    assume a: "MAX_BATCHES cfg = 0 \<and> ?r = None"
    then have m: "MAX_BATCHES cfg = 0" and n: "?r = None" by simp_all
    show "writes (trace ?s') = writes (trace s) @ map (batch_path cfg) (?pend ?ks)
            \<and> skips (trace ?s') = skips (trace s)
              @ filter (is_processed (batches s)) ?ks
            \<and> (\<exists>fa. (\<forall>k. prefix (fa k) (?rem k))
                  \<and> queries (trace ?s') = queries (trace s)
                      @ concat (map (\<lambda>k. fa k @ ?rem k) (?pend ?ks)))
            \<and> (\<forall>k \<in> set ?ks. \<not> is_processed (batches s) k \<longrightarrow>
                  (\<exists>a. map_of (results_dir ?s') (?fn k) = Some a
                       \<and> complete_artifact (?rem k) a))
            \<and> processed_ids (batches ?s') = fst ` set (batches s)
            \<and> batches_processed ?s' = batches_processed s + int (length (?pend ?ks))
            \<and> batches_skipped ?s' = batches_skipped s
              + int (length (filter (is_processed (batches s)) ?ks))"
      by (rule N [OF m n])
  qed
  have S: "\<forall>k b s0. map_of (batches s0) k = Some b \<and> processed b \<longrightarrow>
             process_batch cfg gpt k s0 =
               (s0\<lparr>batches_skipped := batches_skipped s0 + 1, trace := trace s0 @ [Skip k],
                   processed_lsrs := None\<rparr>, None)"
    using process_batch_processed [of _ _ _ cfg gpt] by blast
  show ?thesis by (rule conjI [OF U conjI [OF N' S]])
qed

theorem resume_processes_pending_batches_witness:
  "distinct (map fst (batches resumed_state)) \<and> MAX_BATCHES small_run = 0
   \<and> processed_ids (batches resumed_state) = {0, 1}
   \<and> snd (run_driver small_run empty_answers resumed_state) = None
   \<and> writes (trace (fst (run_driver small_run empty_answers resumed_state)))
       = [''./results/run_2.json'']
   \<and> skips (trace (fst (run_driver small_run empty_answers resumed_state))) = [0, 1]
   \<and> queries (trace (fst (run_driver small_run empty_answers resumed_state))) = [''e'']
   \<and> map_of (results_dir (fst (run_driver small_run empty_answers resumed_state)))
         ''run_2.json''
       = Some [(''0'', (''e'', [(''MINOR'', 0), (''MODERATE'', 0), (''SERIOUS'', 0),
                                (''SEVERE'', 0), (''CATASTROPHIC'', 0)], 0, []))]
   \<and> processed_ids (batches (fst (run_driver small_run empty_answers resumed_state)))
       = {0, 1, 2}
   \<and> batches_processed (fst (run_driver small_run empty_answers resumed_state)) = 1
   \<and> batches_skipped (fst (run_driver small_run empty_answers resumed_state)) = 2"
proof -
  let ?s' = "fst (run_driver small_run empty_answers resumed_state)"
  have b: "batches resumed_state =
      [(0, \<lparr>indices = (0, 1), processed = True\<rparr>),
       (1, \<lparr>indices = (2, 3), processed = True\<rparr>),
       (2, \<lparr>indices = (4, 4), processed = False\<rparr>)]"
    by code_simp
  have m: "MAX_BATCHES small_run = 0" by (simp add: small_run_def)
  have d: "distinct (map fst (batches resumed_state))" by (simp add: b)
  have n: "snd (run_driver small_run empty_answers resumed_state) = None" by code_simp
  have p: "processed_ids (batches resumed_state) = {0, 1}"
    by (auto simp: b processed_ids_def split: if_splits)
  have e1: "writes (trace resumed_state) = []" "skips (trace resumed_state) = []"
    "batches_processed resumed_state = 0" "batches_skipped resumed_state = 0"
    by (simp_all add: resumed_state_def initial_state_def writes_def skips_def)
  have e2: "map (batch_path small_run)
      (filter (\<lambda>k. \<not> is_processed (batches resumed_state) k) (map fst (batches resumed_state)))
      = [''./results/run_2.json'']"
    by code_simp
  have e3: "filter (is_processed (batches resumed_state)) (map fst (batches resumed_state)) = [0, 1]"
    by code_simp
  have e5: "filter (\<lambda>k. \<not> is_processed (batches resumed_state) k) (map fst (batches resumed_state)) = [2]"
    by code_simp
  have e6: "fst ` set (batches resumed_state) = {0, 1, 2}" by (auto simp: b)
  have c1: "queries (trace ?s') = [''e'']" by code_simp
  have c2: "map_of (results_dir ?s') ''run_2.json''
       = Some [(''0'', (''e'', [(''MINOR'', 0), (''MODERATE'', 0), (''SERIOUS'', 0),
                                (''SEVERE'', 0), (''CATASTROPHIC'', 0)], 0, []))]"
    by code_simp
  note N = resume_processes_pending_batches [OF d, of small_run empty_answers,
      THEN conjunct2, THEN conjunct1, THEN mp, OF conjI [OF m n]]
  have A: "writes (trace ?s') = [''./results/run_2.json'']"
    using N [THEN conjunct1] unfolding e1 e2 by simp
  have B: "skips (trace ?s') = [0, 1]"
    using N [THEN conjunct2, THEN conjunct1] unfolding e1 e3 by simp
  have D: "processed_ids (batches ?s') = {0, 1, 2}"
    using N [THEN conjunct2, THEN conjunct2, THEN conjunct2, THEN conjunct2, THEN conjunct1]
    unfolding e6 .
  have E: "batches_processed ?s' = 1"
    using N [THEN conjunct2, THEN conjunct2, THEN conjunct2, THEN conjunct2, THEN conjunct2,
        THEN conjunct1]
    unfolding e1 e5 by simp
  have F: "batches_skipped ?s' = 2"
    using N [THEN conjunct2, THEN conjunct2, THEN conjunct2, THEN conjunct2, THEN conjunct2,
        THEN conjunct2]
    unfolding e1 e3 by simp
  show ?thesis by (intro conjI d m p n A B c1 c2 D E F)
qed

end
